theory Spec2Isabelle
  imports Complex_Main "HOL-Library.Word"
begin

unbundle bit_operations_syntax

section \<open>Escape-time evaluator and colouring policy (main.go)\<close>

text \<open>
  Go's \<open>int\<close> is modelled by \<open>int\<close>: iteration counts and image sizes stay far below
  \<open>2 ^ 53\<close>, so that their conversion to \<open>float64\<close> is exact. A \<open>float64\<close> is modelled by
  the real number it denotes and a \<open>complex128\<close> by a \<open>complex\<close> of two such numbers;
  infinities, NaN and signed zeros have no counterpart. The arithmetic of the pixel
  mapping, of the escape-time evaluator and of \<open>math.Hypot\<close> rounds every result to the
  nearest \<open>float64\<close> (\<open>round64\<close> below). The arithmetic of the colouring formula
  (logarithms, divisions) and of the palette is carried out in the reals.
\<close>

subsection \<open>float64 arithmetic\<close>

text \<open>
  IEEE 754 binary64, rounding to nearest, ties to even. \<open>halfEven\<close> is the integer
  nearest to a real number, the even one of the two at a tie. \<open>expo64 x\<close> is the
  exponent of the binade of \<open>x\<close>, not below the exponent \<open>-1022\<close> of the subnormal
  numbers; \<open>ulp64 x\<close> is the distance of two neighbouring \<open>float64\<close> there (53
  significant bits). \<open>round64 x\<close> is the multiple of \<open>ulp64 x\<close> nearest to \<open>x\<close>. The
  overflow to infinity of a result of \<open>2 ^ 1024\<close> or more is not modelled.
\<close>

definition halfEven :: "real \<Rightarrow> int" where
  "halfEven r =
     (let f = \<lfloor>r\<rfloor>; d = r - of_int f in
      if d < 1 / 2 then f else if 1 / 2 < d then f + 1 else if even f then f else f + 1)"

definition expo64 :: "real \<Rightarrow> int" where
  "expo64 x = max \<lfloor>log 2 \<bar>x\<bar>\<rfloor> (- 1022)"

definition ulp64 :: "real \<Rightarrow> real" where
  "ulp64 x = 2 powi (expo64 x - 52)"

definition round64 :: "real \<Rightarrow> real" where
  "round64 x = (if x = 0 then 0 else of_int (halfEven (x / ulp64 x)) * ulp64 x)"

text \<open>The operations \<open>+\<close>, \<open>-\<close>, \<open>*\<close>, \<open>/\<close> on \<open>float64\<close>, and \<open>math.Sqrt\<close>.\<close>

definition add64 :: "real \<Rightarrow> real \<Rightarrow> real" where
  "add64 a b = round64 (a + b)"

definition sub64 :: "real \<Rightarrow> real \<Rightarrow> real" where
  "sub64 a b = round64 (a - b)"

definition mul64 :: "real \<Rightarrow> real \<Rightarrow> real" where
  "mul64 a b = round64 (a * b)"

definition div64 :: "real \<Rightarrow> real \<Rightarrow> real" where
  "div64 a b = round64 (a / b)"

definition sqrt64 :: "real \<Rightarrow> real" where
  "sqrt64 a = round64 (sqrt a)"

text \<open>
  The operations \<open>*\<close> and \<open>+\<close> on \<open>complex128\<close>. The compiler computes the product of
  \<open>a\<close> and \<open>b\<close> as \<open>real(a)*real(b) - imag(a)*imag(b)\<close> and
  \<open>real(a)*imag(b) + imag(a)*real(b)\<close>, every operation rounded on its own (on amd64
  a multiplication and an addition are not fused).
\<close>

definition complexMul :: "complex \<Rightarrow> complex \<Rightarrow> complex" where
  "complexMul a b =
     Complex (sub64 (mul64 (Re a) (Re b)) (mul64 (Im a) (Im b)))
             (add64 (mul64 (Re a) (Im b)) (mul64 (Im a) (Re b)))"

definition complexAdd :: "complex \<Rightarrow> complex \<Rightarrow> complex" where
  "complexAdd a b = Complex (add64 (Re a) (Re b)) (add64 (Im a) (Im b))"

subsection \<open>The evaluator\<close>

text \<open>
  \<open>sumSquares z\<close> is the expression \<open>real(z)*real(z) + imag(z)*imag(z)\<close> of the escape
  test.
\<close>

definition sumSquares :: "complex \<Rightarrow> real" where
  "sumSquares z = add64 (mul64 (Re z) (Re z)) (mul64 (Im z) (Im z))"

text \<open>
  \<open>mandelbrotIterations\<close>: the loop \<open>for n := 0; n < maxIter; n++\<close> with the running
  value \<open>z\<close>, started by \<open>mandelbrotIterations\<close> at \<open>n = 0\<close>, \<open>z = 0\<close>.
\<close>

function mandelbrotLoop :: "complex \<Rightarrow> int \<Rightarrow> int \<Rightarrow> complex \<Rightarrow> int \<times> complex" where
  "mandelbrotLoop c maxIter n z =
     (if n < maxIter then
        (let z' = complexAdd (complexMul z z) c in
         if sumSquares z' > 4 then (n, z')
         else mandelbrotLoop c maxIter (n + 1) z')
      else (maxIter, z))"
  by pat_completeness auto
termination
  by (relation "measure (\<lambda>(c, maxIter, n, z). nat (maxIter - n))") auto

declare mandelbrotLoop.simps [simp del]

definition mandelbrotIterations :: "complex \<Rightarrow> int \<Rightarrow> int \<times> complex" where
  "mandelbrotIterations c maxIter = mandelbrotLoop c maxIter 0 0"

text \<open>
  \<open>math.Hypot(p, q)\<close>, as the Go library computes it (the portable code and the amd64
  assembly alike): with \<open>p\<close> the larger and \<open>q\<close> the smaller of the two absolute
  values, 0 if \<open>p\<close> is 0 and \<open>p * Sqrt(1 + (q/p)*(q/p))\<close> otherwise.
  \<open>cmplxAbs\<close> is \<open>math.Hypot(real(z), imag(z))\<close>.
\<close>

definition Hypot :: "real \<Rightarrow> real \<Rightarrow> real" where
  "Hypot p0 q0 =
     (let p1 = \<bar>p0\<bar>; q1 = \<bar>q0\<bar>;
          p = (if p1 < q1 then q1 else p1);
          q = (if p1 < q1 then p1 else q1)
      in if p = 0 then 0
         else (let q' = div64 q p in mul64 p (sqrt64 (add64 1 (mul64 q' q')))))"

definition cmplxAbs :: "complex \<Rightarrow> real" where
  "cmplxAbs z = Hypot (Re z) (Im z)"

subsection \<open>The colouring policy\<close>

text \<open>
  The colouring policy: the part of the body of \<open>computeRow\<close> that turns the result
  \<open>(iter, z)\<close> of the evaluator into the palette position \<open>t\<close>.
  \<open>math.Log\<close> is the natural logarithm; on a number that is not positive it gives
  a NaN or an infinity in Go, where \<open>ln\<close> gives a real number of no meaning for the
  code. The results of the evaluator do not lead there, as shown below.
\<close>

definition colourT :: "int \<Rightarrow> complex \<Rightarrow> int \<Rightarrow> bool \<Rightarrow> real" where
  "colourT iter z iters smooth =
     (if iter \<ge> iters then 0
      else if smooth then
        (let mag0 = cmplxAbs z;
             mag = (if mag0 \<le> 0 then 1 / 10 ^ 16 else mag0);
             nu0 = real_of_int iter + 1 - ln (ln mag) / ln 2;
             nu = (if nu0 < 0 then real_of_int iter else nu0)
         in nu / real_of_int iters)
      else real_of_int iter / real_of_int iters)"

section \<open>Palette model (palette/palette.go)\<close>

text \<open>
  \<open>color.RGBA\<close>: four \<open>uint8\<close> channels. The stops of this repository hold
  \<open>color.RGBA\<close> values in their \<open>color.Color\<close> field, and that is the colour type of
  the model. The selectors stand for the Go fields \<open>R\<close>, \<open>G\<close>, \<open>B\<close>, \<open>A\<close>.
\<close>

datatype RGBA = RGBA (chanR: "8 word") (chanG: "8 word") (chanB: "8 word") (chanA: "8 word")

text \<open>
  \<open>type Color struct { Step float64; Color color.Color }\<close> and
  \<open>type ColorMap struct { Keyword string; Colors []Color }\<close>.
\<close>

record Color =
  Step :: real
  Colour :: RGBA

record ColorMap =
  Keyword :: string
  Colors :: "Color list"

text \<open>
  The method \<open>RGBA()\<close> of \<open>color.RGBA\<close> widens a channel \<open>c\<close> to the \<open>uint32\<close>
  value \<open>c | c << 8\<close>; \<open>toRGBA\<close> shifts it back by 8 and converts to \<open>uint8\<close>.
\<close>

definition widen :: "8 word \<Rightarrow> 32 word" where
  "widen c = (let r = (ucast c :: 32 word) in r OR push_bit 8 r)"

definition toRGBA :: "RGBA \<Rightarrow> RGBA" where
  "toRGBA c =
     (let r = widen (chanR c); g = widen (chanG c); b = widen (chanB c); a = widen (chanA c)
      in RGBA (ucast (drop_bit 8 r)) (ucast (drop_bit 8 g))
              (ucast (drop_bit 8 b)) (ucast (drop_bit 8 a)))"

definition clamp :: "real \<Rightarrow> real \<Rightarrow> real \<Rightarrow> real" where
  "clamp v lo hi = (if v < lo then lo else if v > hi then hi else v)"

text \<open>
  \<open>uint8(v)\<close> for a float \<open>v\<close> truncates towards zero; \<open>lerpRGBA\<close> converts
  clamped values only, which lie in \<open>[0, 255]\<close>.
\<close>

definition uint8_of_float :: "real \<Rightarrow> 8 word" where
  "uint8_of_float v = word_of_int \<lfloor>v\<rfloor>"

definition float_of_uint8 :: "8 word \<Rightarrow> real" where
  "float_of_uint8 w = real (unat w)"

definition lerpChannel :: "8 word \<Rightarrow> 8 word \<Rightarrow> real \<Rightarrow> 8 word" where
  "lerpChannel x y t =
     uint8_of_float (clamp ((1 - t) * float_of_uint8 x + t * float_of_uint8 y) 0 255)"

definition lerpRGBA :: "RGBA \<Rightarrow> RGBA \<Rightarrow> real \<Rightarrow> RGBA" where
  "lerpRGBA a b t =
     (if t \<le> 0 then a
      else if t \<ge> 1 then b
      else RGBA (lerpChannel (chanR a) (chanR b) t) (lerpChannel (chanG a) (chanG b) t)
                (lerpChannel (chanB a) (chanB b) t) (lerpChannel (chanA a) (chanA b) t))"

text \<open>
  \<open>Interpolate\<close>, on the stop list \<open>cm.Colors\<close> of the map (the \<open>Keyword\<close> plays no
  part). The interval search is the loop
  \<open>for i := 0; i < len(cm.Colors)-1; i++\<close>. Where the bracketing stops have the same
  \<open>Step\<close> (and so \<open>t\<close> equals both), \<open>segT\<close> is \<open>0/0\<close>, a NaN in Go: every
  comparison of \<open>lerpRGBA\<close> and \<open>clamp\<close> is then false and each channel is
  \<open>uint8(NaN)\<close>, which the Go language leaves implementation-dependent. The model
  returns \<open>None\<close> there and \<open>Some\<close> colour everywhere else.
\<close>

function interpolateLoop :: "Color list \<Rightarrow> real \<Rightarrow> nat \<Rightarrow> RGBA option" where
  "interpolateLoop cs t i =
     (if int i < int (length cs) - 1 then
        (let a = cs ! i; b = cs ! (i + 1) in
         if t \<ge> Step a \<and> t \<le> Step b then
           (if Step b - Step a = 0 then None
            else Some (lerpRGBA (toRGBA (Colour a)) (toRGBA (Colour b))
                         ((t - Step a) / (Step b - Step a))))
         else interpolateLoop cs t (i + 1))
      else Some (toRGBA (Colour (cs ! (length cs - 1)))))"
  by pat_completeness auto
termination
  by (relation "measure (\<lambda>(cs, t, i). length cs - i)") auto

declare interpolateLoop.simps [simp del]

definition Interpolate :: "Color list \<Rightarrow> real \<Rightarrow> RGBA option" where
  "Interpolate cs t =
     (if length cs = 0 then Some (RGBA 0 0 0 255)
      else if t \<le> 0 then Some (toRGBA (Colour (cs ! 0)))
      else if t \<ge> 1 then Some (toRGBA (Colour (cs ! (length cs - 1))))
      else interpolateLoop cs t 0)"

text \<open>
  \<open>sort.Slice(cm.Colors, less)\<close> with \<open>less(i, j) = Colors[i].Step < Colors[j].Step\<close>.
  For a slice of at most 12 elements Go's \<open>sort.Slice\<close> runs the insertion sort below:
  each element in turn is swapped leftwards while it is less than its left neighbour.
  For longer slices the library switches to a pattern-defeating quicksort, which
  returns a permutation sorted by \<open>less\<close> as well, with stops of equal \<open>Step\<close>
  possibly in another order, and which leaves a slice that is already in order as it
  is.
  \<open>insertLeft\<close> takes the sorted prefix in reverse (nearest neighbour first).
\<close>

fun insertLeft :: "Color \<Rightarrow> Color list \<Rightarrow> Color list" where
  "insertLeft x [] = [x]"
| "insertLeft x (y # ys) = (if Step x < Step y then y # insertLeft x ys else x # y # ys)"

definition sortSlice :: "Color list \<Rightarrow> Color list" where
  "sortSlice cs = rev (foldl (\<lambda>acc x. insertLeft x acc) [] cs)"

text \<open>The two clamping tests of \<open>Normalize\<close>, applied to one \<open>Step\<close>.\<close>

definition clampStep :: "real \<Rightarrow> real" where
  "clampStep s = (let s1 = (if s < 0 then 0 else s) in if s1 > 1 then 1 else s1)"

definition setStep :: "Color \<Rightarrow> real \<Rightarrow> Color" where
  "setStep c s = c\<lparr>Step := s\<rparr>"

text \<open>
  The loop that builds \<open>fixed\<close>: the pairs \<open>idxStep{i, c.Step}\<close> of the stops with
  \<open>c.Step > 0\<close>, clamped on the loop's own copy \<open>c\<close> of the stop.
\<close>

fun collectFixed :: "nat \<Rightarrow> Color list \<Rightarrow> (nat \<times> real) list" where
  "collectFixed i [] = []"
| "collectFixed i (c # cs) =
     (if Step c > 0 then (i, clampStep (Step c)) # collectFixed (i + 1) cs
      else collectFixed (i + 1) cs)"

text \<open>
  The inner loop \<open>for i := ia; i <= ib; i++\<close> of the fill, for the pair of anchors
  \<open>a\<close>, \<open>b\<close>, and the outer loop over the consecutive pairs of \<open>fixed\<close>.
  \<open>fillValue a b i\<close> is the \<open>Step\<close> that the inner loop assigns at index \<open>i\<close>, with
  the arithmetic of the reals: the \<open>float64\<close> that the code computes can differ from it
  by the rounding of the operations of \<open>a.step + t*(b.step - a.step)\<close>.
\<close>

definition fillValue :: "nat \<times> real \<Rightarrow> nat \<times> real \<Rightarrow> nat \<Rightarrow> real" where
  "fillValue a b i =
     (if i = fst a then snd a
      else snd a + (real (i - fst a) / real (fst b - fst a)) * (snd b - snd a))"

definition fillStep :: "nat \<times> real \<Rightarrow> nat \<times> real \<Rightarrow> nat \<Rightarrow> Color list \<Rightarrow> Color list" where
  "fillStep a b i cs = cs[i := setStep (cs ! i) (fillValue a b i)]"

definition fillSpan :: "nat \<times> real \<Rightarrow> nat \<times> real \<Rightarrow> Color list \<Rightarrow> Color list" where
  "fillSpan a b cs = fold (fillStep a b) [fst a ..< Suc (fst b)] cs"

fun fillBetween :: "(nat \<times> real) list \<Rightarrow> Color list \<Rightarrow> Color list" where
  "fillBetween (a # b # rest) cs = fillBetween (b # rest) (fillSpan a b cs)"
| "fillBetween _ cs = cs"

text \<open>
  The two tests that make the first and the last stop anchors: each returns the list
  \<open>fixed\<close> and the stops as the test leaves them.
\<close>

definition fixFirst :: "(nat \<times> real) list \<Rightarrow> Color list \<Rightarrow> (nat \<times> real) list \<times> Color list" where
  "fixFirst fixed cs =
     (if fst (fixed ! 0) \<noteq> 0
      then ((0, 0) # fixed, cs[0 := setStep (cs ! 0) 0])
      else (fixed, cs))"

definition fixLast :: "nat \<Rightarrow> (nat \<times> real) list \<Rightarrow> Color list \<Rightarrow> (nat \<times> real) list \<times> Color list" where
  "fixLast n fixed cs =
     (if fst (fixed ! (length fixed - 1)) \<noteq> n - 1
      then (fixed @ [(n - 1, 1)], cs[n - 1 := setStep (cs ! (n - 1)) 1])
      else (fixed, cs))"

text \<open>
  The even spacing \<open>for i := range cm.Colors\<close>, with \<open>n = len(cm.Colors)\<close>, that
  \<open>Normalize\<close> runs on a map of two or more stops none of which is an anchor.
\<close>

definition evenly :: "Color list \<Rightarrow> Color list" where
  "evenly cs =
     map (\<lambda>(i, c). setStep c (real i / real (length cs - 1))) (zip [0 ..< length cs] cs)"

text \<open>
  \<open>Normalize\<close>, on the stop list \<open>cm.Colors\<close> of the map; a \<open>Step\<close> is a real number
  here, as every \<open>float64\<close> of the model. Where the map has a single stop and its
  \<open>Step\<close> is 0, the even spacing divides \<open>float64(0)\<close> by \<open>float64(n-1) = 0\<close>: the
  stop's \<open>Step\<close> becomes NaN, which is no real number, and the model returns \<open>None\<close>.
  Every other map gives \<open>Some\<close> stop list.
\<close>

definition Normalize :: "Color list \<Rightarrow> Color list option" where
  "Normalize cs =
     (if length cs = 0 then Some cs
      else if list_all (\<lambda>c. Step c \<noteq> 0) cs then
        Some (map (\<lambda>c. setStep c (clampStep (Step c))) (sortSlice cs))
      else
        (let n = length cs; fixed = collectFixed 0 cs in
         if length fixed = 0 then
           (if n = 1 then None
            else Some (evenly cs))
         else
           (let (fixed1, cs1) = fixFirst fixed cs;
                (fixed2, cs2) = fixLast n fixed1 cs1
            in Some (sortSlice (fillBetween fixed2 cs2)))))"

section \<open>Rendering: \<open>computeRow\<close> and the worker pool of \<open>main\<close> (main.go)\<close>

text \<open>
  The render parameters that \<open>main\<close> passes to \<open>computeRow\<close>: the flag values and
  the palette \<open>cmap\<close>, which \<open>main\<close> has looked up and normalized before.
\<close>

record Params =
  width :: int
  height :: int
  xmin :: real
  xmax :: real
  ymin :: real
  ymax :: real
  iters :: int
  cmap :: ColorMap
  smooth :: bool

text \<open>
  The body of the loop of \<open>computeRow\<close> up to the colour \<open>clr\<close> of the pixel
  \<open>(x, y)\<close>: pixel mapping, escape-time evaluation, colouring policy, interpolation.
\<close>

definition pixelColour :: "Params \<Rightarrow> int \<Rightarrow> int \<Rightarrow> RGBA option" where
  "pixelColour p x y =
     (let cre = add64 (xmin p)
                  (mul64 (div64 (real_of_int x) (real_of_int (width p))) (sub64 (xmax p) (xmin p)));
          cim = add64 (ymin p)
                  (mul64 (div64 (real_of_int y) (real_of_int (height p))) (sub64 (ymax p) (ymin p)));
          c = Complex cre cim;
          (iter, z) = mandelbrotIterations c (iters p);
          t = colourT iter z (iters p) (smooth p)
      in Interpolate (Colors (cmap p)) t)"

text \<open>
  \<open>image.RGBA\<close>: the bounds and the pixels, as a function of the coordinates (the
  layout of the byte slice \<open>Pix\<close> is not modelled). A pixel is \<open>None\<close> where the colour
  written is one that \<open>Interpolate\<close> leaves implementation-dependent.
  \<open>image.Rect\<close> swaps the coordinates of a rectangle given with \<open>x0 > x1\<close> or
  \<open>y0 > y1\<close>; \<open>SetRGBA\<close> ignores a point outside the bounds.
\<close>

record Image =
  minX :: int
  minY :: int
  maxX :: int
  maxY :: int
  Pix :: "int \<times> int \<Rightarrow> RGBA option"

definition NewRGBA :: "int \<Rightarrow> int \<Rightarrow> Image" where
  "NewRGBA w h =
     \<lparr>minX = (if 0 > w then w else 0), minY = (if 0 > h then h else 0),
      maxX = (if 0 > w then 0 else w), maxY = (if 0 > h then 0 else h),
      Pix = (\<lambda>_. Some (RGBA 0 0 0 0))\<rparr>"

definition SetRGBA :: "Image \<Rightarrow> int \<Rightarrow> int \<Rightarrow> RGBA option \<Rightarrow> Image" where
  "SetRGBA im x y c =
     (if minX im \<le> x \<and> x < maxX im \<and> minY im \<le> y \<and> y < maxY im
      then im\<lparr>Pix := (Pix im)((x, y) := c)\<rparr>
      else im)"

text \<open>\<open>computeRow\<close>: the loop \<open>for x := 0; x < width; x++\<close>, from column \<open>x\<close> on.\<close>

function computeRowFrom :: "Params \<Rightarrow> int \<Rightarrow> int \<Rightarrow> Image \<Rightarrow> Image" where
  "computeRowFrom p y x im =
     (if x < width p then computeRowFrom p y (x + 1) (SetRGBA im x y (pixelColour p x y))
      else im)"
  by pat_completeness auto
termination
  by (relation "measure (\<lambda>(p, y, x, im). nat (width p - x))") auto

declare computeRowFrom.simps [simp del]

definition computeRow :: "Params \<Rightarrow> int \<Rightarrow> Image \<Rightarrow> Image" where
  "computeRow p y im = computeRowFrom p y 0 im"

text \<open>
  The worker pool of \<open>main\<close>, as an interleaving of the goroutines. The main goroutine
  sends the rows \<open>0, 1, ..\<close> into the channel \<open>rows\<close> (buffered with capacity
  \<open>height\<close>, so no send blocks), closes it and waits for the workers. A worker is
  at \<open>for y := range rows\<close>, waiting for a row (\<open>Waiting\<close>), or inside
  \<open>computeRow\<close> for row \<open>y\<close> and about to test column \<open>x\<close> (\<open>Computing y x\<close>), or
  it has left its loop and called \<open>wg.Done\<close> (\<open>Returned\<close>). One step of a worker inside
  \<open>computeRow\<close> is one iteration of its loop. \<open>written\<close> records the calls of
  \<open>SetRGBA\<close> in the order they happen.
\<close>

datatype Worker = Waiting | Computing int int | Returned

record Pool =
  nextRow :: int
  closed :: bool
  rows :: "int list"
  workers :: "Worker list"
  img :: Image
  written :: "(int \<times> int) list"

datatype Goroutine = MainRoutine | WorkerRoutine nat

definition mainStep :: "Params \<Rightarrow> Pool \<Rightarrow> Pool" where
  "mainStep p s =
     (if nextRow s < height p
      then s\<lparr>nextRow := nextRow s + 1, rows := rows s @ [nextRow s]\<rparr>
      else if \<not> closed s then s\<lparr>closed := True\<rparr>
      else s)"

definition workerStep :: "Params \<Rightarrow> nat \<Rightarrow> Pool \<Rightarrow> Pool" where
  "workerStep p i s =
     (if i < length (workers s) then
        (case workers s ! i of
           Waiting \<Rightarrow>
             (case rows s of
                y # q \<Rightarrow> s\<lparr>rows := q, workers := (workers s)[i := Computing y 0]\<rparr>
              | [] \<Rightarrow> if closed s then s\<lparr>workers := (workers s)[i := Returned]\<rparr> else s)
         | Computing y x \<Rightarrow>
             (if x < width p
              then s\<lparr>workers := (workers s)[i := Computing y (x + 1)],
                     img := SetRGBA (img s) x y (pixelColour p x y),
                     written := written s @ [(x, y)]\<rparr>
              else s\<lparr>workers := (workers s)[i := Waiting]\<rparr>)
         | Returned \<Rightarrow> s)
      else s)"

fun step :: "Params \<Rightarrow> Goroutine \<Rightarrow> Pool \<Rightarrow> Pool" where
  "step p MainRoutine s = mainStep p s"
| "step p (WorkerRoutine i) s = workerStep p i s"

text \<open>
  The start of the pool: \<open>img\<close> is allocated (the allocation is taken to succeed),
  \<open>make(chan int, height)\<close> panics for a negative \<open>height\<close>, and \<open>concurrency\<close> workers
  are started (none when \<open>concurrency\<close> is zero or negative).
\<close>

definition startPool :: "int \<Rightarrow> Params \<Rightarrow> Pool option" where
  "startPool concurrency p =
     (if height p < 0 then None
      else Some \<lparr>nextRow = 0, closed = False, rows = [],
                  workers = replicate (nat concurrency) Waiting,
                  img = NewRGBA (width p) (height p), written = []\<rparr>)"

text \<open>
  \<open>wg.Wait\<close> returns, and \<open>main\<close> goes on to save the image, once the channel is
  closed and every worker has returned.
\<close>

definition finished :: "Pool \<Rightarrow> bool" where
  "finished s = (closed s \<and> list_all (\<lambda>w. w = Returned) (workers s))"

datatype Outcome = Panicked | Unfinished | Rendered Pool

text \<open>
  The render under a schedule, the list of the goroutines in the order in which they
  take their steps (a goroutine that is blocked when its turn comes leaves the state
  as it is).
\<close>

definition render :: "int \<Rightarrow> Params \<Rightarrow> Goroutine list \<Rightarrow> Outcome" where
  "render concurrency p sched =
     (case startPool concurrency p of
        None \<Rightarrow> Panicked
      | Some s0 \<Rightarrow>
          (let s = fold (step p) sched s0 in if finished s then Rendered s else Unfinished))"

section \<open>Definitions used in the statements and proofs\<close>


text \<open>
  The \<open>Step\<close> that the fill loops of \<open>Normalize\<close> leave at index \<open>j\<close>, if they write
  there at all: the value written by the last span of \<open>fixed\<close> that contains \<open>j\<close>.
\<close>

fun filledValue :: "(nat \<times> real) list \<Rightarrow> nat \<Rightarrow> real option" where
  "filledValue (a # b # rest) j =
     (case filledValue (b # rest) j of
        Some v \<Rightarrow> Some v
      | None \<Rightarrow> if fst a \<le> j \<and> j \<le> fst b then Some (fillValue a b j) else None)"
| "filledValue _ j = None"

text \<open>Stops and colours for the concrete gradients of the examples.\<close>

definition stop :: "real \<Rightarrow> RGBA \<Rightarrow> Color" where
  "stop s c = \<lparr>Step = s, Colour = c\<rparr>"

definition black :: RGBA where
  "black = RGBA 0 0 0 255"

definition grey :: RGBA where
  "grey = RGBA 112 112 112 255"

definition white :: RGBA where
  "white = RGBA 255 255 255 255"

text \<open>
  The pixels that the pool has written in state \<open>s\<close>: those of the rows that were
  sent and taken from the channel, up to the column that the worker on the row has
  reached, or all of them once no worker is on the row.
\<close>

definition onRow :: "Worker \<Rightarrow> int \<Rightarrow> int \<Rightarrow> bool" where
  "onRow w y x = (case w of Computing y' x' \<Rightarrow> y' = y \<and> x' \<le> x | _ \<Rightarrow> False)"

definition pixelWritten :: "Params \<Rightarrow> Pool \<Rightarrow> int \<times> int \<Rightarrow> bool" where
  "pixelWritten p s xy =
     (case xy of (x, y) \<Rightarrow>
        0 \<le> x \<and> x < width p \<and> 0 \<le> y \<and> y < nextRow s \<and> y \<notin> set (rows s)
        \<and> \<not> list_ex (\<lambda>w. onRow w y x) (workers s))"

text \<open>The invariant of the pool.\<close>

definition rowOf :: "Worker \<Rightarrow> int option" where
  "rowOf w = (case w of Computing y x \<Rightarrow> Some y | _ \<Rightarrow> None)"

definition invMain :: "Params \<Rightarrow> Pool \<Rightarrow> bool" where
  "invMain p s =
     (0 \<le> nextRow s \<and> nextRow s \<le> height p \<and> (closed s \<longrightarrow> nextRow s = height p))"

definition invRows :: "Pool \<Rightarrow> bool" where
  "invRows s = (distinct (rows s) \<and> (\<forall>y \<in> set (rows s). 0 \<le> y \<and> y < nextRow s))"

definition invWorkers :: "Pool \<Rightarrow> bool" where
  "invWorkers s =
     (\<forall>i < length (workers s). \<forall>y x. workers s ! i = Computing y x \<longrightarrow>
        0 \<le> y \<and> y < nextRow s \<and> y \<notin> set (rows s) \<and> 0 \<le> x)"

definition invOneWorker :: "Pool \<Rightarrow> bool" where
  "invOneWorker s =
     (\<forall>i < length (workers s). \<forall>j < length (workers s).
        rowOf (workers s ! i) \<noteq> None \<longrightarrow> rowOf (workers s ! i) = rowOf (workers s ! j) \<longrightarrow> i = j)"

definition invReturned :: "Pool \<Rightarrow> bool" where
  "invReturned s = (Returned \<in> set (workers s) \<longrightarrow> rows s = [] \<and> closed s)"

definition invRect :: "Params \<Rightarrow> Pool \<Rightarrow> bool" where
  "invRect p s =
     (minX (img s) = minX (NewRGBA (width p) (height p))
      \<and> minY (img s) = minY (NewRGBA (width p) (height p))
      \<and> maxX (img s) = maxX (NewRGBA (width p) (height p))
      \<and> maxY (img s) = maxY (NewRGBA (width p) (height p)))"

definition invPix :: "Params \<Rightarrow> Pool \<Rightarrow> bool" where
  "invPix p s =
     (\<forall>xy. Pix (img s) xy
        = (if pixelWritten p s xy then pixelColour p (fst xy) (snd xy) else Some (RGBA 0 0 0 0)))"

definition invWritten :: "Params \<Rightarrow> Pool \<Rightarrow> bool" where
  "invWritten p s = (\<forall>xy. (xy \<in> set (written s)) = pixelWritten p s xy)"

definition poolInv :: "Params \<Rightarrow> Pool \<Rightarrow> bool" where
  "poolInv p s =
     (invMain p s \<and> invRows s \<and> invWorkers s \<and> invOneWorker s \<and> invReturned s
      \<and> invRect p s \<and> invPix p s \<and> invWritten p s)"

text \<open>
  The image of a completed render: the colour of \<open>computeRow\<close> at every pixel of the
  \<open>width\<close> by \<open>height\<close> grid.
\<close>

definition fullImage :: "Params \<Rightarrow> Image" where
  "fullImage p =
     (NewRGBA (width p) (height p))
       \<lparr>Pix := (\<lambda>xy. if 0 \<le> fst xy \<and> fst xy < width p \<and> 0 \<le> snd xy \<and> snd xy < height p
                     then pixelColour p (fst xy) (snd xy) else Some (RGBA 0 0 0 0))\<rparr>"

text \<open>
  The render without concurrency: \<open>computeRow\<close> on the rows \<open>0, 1, .., height - 1\<close>
  in turn, on the image as allocated.
\<close>

definition renderRows :: "Params \<Rightarrow> Image" where
  "renderRows p =
     fold (computeRow p) (map int [0 ..< nat (height p)]) (NewRGBA (width p) (height p))"

text \<open>
  The number of steps that the goroutines of the pool have still to take at most: it
  decreases with every step of a goroutine that is not blocked.
\<close>

definition workerSteps :: "Params \<Rightarrow> Worker \<Rightarrow> nat" where
  "workerSteps p w =
     (case w of Waiting \<Rightarrow> 1 | Computing y x \<Rightarrow> nat (width p - x) + 2 | Returned \<Rightarrow> 0)"

definition stepsLeft :: "Params \<Rightarrow> Pool \<Rightarrow> nat" where
  "stepsLeft p s =
     nat (height p - nextRow s) * (nat (width p) + 4) + (if closed s then 0 else 1)
     + length (rows s) * (nat (width p) + 3) + sum_list (map (workerSteps p) (workers s))"

text \<open>A small render for the examples: two columns, one row.\<close>

definition demoParams :: Params where
  "demoParams =
     \<lparr>width = 2, height = 1, xmin = - 2, xmax = 2, ymin = - 2, ymax = 2, iters = 50,
      cmap = \<lparr>Keyword = ''demo'', Colors = [stop 0 black, stop 1 white]\<rparr>,
      smooth = False\<rparr>"

text \<open>
  One worker: the main goroutine sends row 0 and closes the channel; the worker takes
  the row, computes its two pixels, leaves \<open>computeRow\<close> and returns.
\<close>

definition demoSchedule1 :: "Goroutine list" where
  "demoSchedule1 = MainRoutine # MainRoutine # replicate 5 (WorkerRoutine 0)"

definition demoPool1 :: Pool where
  "demoPool1 =
     \<lparr>nextRow = 1, closed = True, rows = [], workers = [Returned],
      img = computeRow demoParams 0 (NewRGBA 2 1), written = [(0, 0), (1, 0)]\<rparr>"

text \<open>Eight workers: worker 3 takes the row; then every worker returns.\<close>

definition demoSchedule8 :: "Goroutine list" where
  "demoSchedule8 =
     MainRoutine # MainRoutine # replicate 4 (WorkerRoutine 3) @ map WorkerRoutine [0 ..< 8]"

definition demoPool8 :: Pool where
  "demoPool8 =
     \<lparr>nextRow = 1, closed = True, rows = [], workers = replicate 8 Returned,
      img = computeRow demoParams 0 (NewRGBA 2 1), written = [(0, 0), (1, 0)]\<rparr>"

text \<open>A render of one pixel with the iteration count 0, and no worker at all.\<close>

definition zeroIterParams :: Params where
  "zeroIterParams = demoParams\<lparr>width := 1, iters := 0\<rparr>"

definition zeroIterSchedule :: "Goroutine list" where
  "zeroIterSchedule = MainRoutine # MainRoutine # replicate 4 (WorkerRoutine 0)"

definition zeroIterPool :: Pool where
  "zeroIterPool =
     \<lparr>nextRow = 1, closed = True, rows = [], workers = [Returned],
      img = SetRGBA (NewRGBA 1 1) 0 0 (Some black), written = [(0, 0)]\<rparr>"


section \<open>float64 arithmetic: proofs\<close>

subsection \<open>Rounding to the nearest integer\<close>

lemma halfEven_near: "\<bar>r - of_int m\<bar> < 1 / 2 \<Longrightarrow> halfEven r = m"
proof -
  assume a: "\<bar>r - of_int m\<bar> < 1 / 2"
  show ?thesis
  proof (cases "of_int m \<le> r")
    case True
    with a have "\<lfloor>r\<rfloor> = m" by (intro floor_unique) linarith+
    with a True show ?thesis by (simp add: halfEven_def Let_def)
  next
    case False
    with a have "of_int (m - 1) \<le> r" "r < of_int (m - 1) + 1" by simp_all
    then have "\<lfloor>r\<rfloor> = m - 1" by (rule floor_unique)
    with a False show ?thesis by (simp add: halfEven_def Let_def)
  qed
qed

lemma halfEven_of_int: "halfEven (of_int m) = m"
  by (rule halfEven_near) simp

lemma halfEven_bounds: "\<lfloor>r\<rfloor> \<le> halfEven r \<and> halfEven r \<le> \<lfloor>r\<rfloor> + 1"
  by (simp add: halfEven_def Let_def)

lemma halfEven_mono: "r \<le> s \<Longrightarrow> halfEven r \<le> halfEven s"
proof -
  assume rs: "r \<le> s"
  then have fl: "\<lfloor>r\<rfloor> \<le> \<lfloor>s\<rfloor>" by (rule floor_mono)
  show ?thesis
  proof (cases "\<lfloor>r\<rfloor> = \<lfloor>s\<rfloor>")
    case True
    with rs show ?thesis by (simp add: halfEven_def Let_def)
  next
    case False
    with fl have "\<lfloor>r\<rfloor> + 1 \<le> \<lfloor>s\<rfloor>" by simp
    with halfEven_bounds[of r] halfEven_bounds[of s] show ?thesis by linarith
  qed
qed

lemma halfEven_error: "\<bar>of_int (halfEven r) - r\<bar> \<le> 1 / 2"
proof -
  have "of_int \<lfloor>r\<rfloor> \<le> r" "r < of_int \<lfloor>r\<rfloor> + 1" by linarith+
  then show ?thesis by (simp add: halfEven_def Let_def)
qed

lemma halfEven_minus: "halfEven (- r) = - halfEven r"
proof (cases "r = of_int \<lfloor>r\<rfloor>")
  case True
  then have "halfEven r = \<lfloor>r\<rfloor>" using halfEven_of_int[of "\<lfloor>r\<rfloor>"] by simp
  moreover have "halfEven (- r) = - \<lfloor>r\<rfloor>"
    using True halfEven_of_int[of "- \<lfloor>r\<rfloor>"] by simp
  ultimately show ?thesis by simp
next
  case False
  have "of_int \<lfloor>r\<rfloor> \<le> r" "r < of_int \<lfloor>r\<rfloor> + 1" by linarith+
  with False have "of_int (- \<lfloor>r\<rfloor> - 1) \<le> - r" "- r < of_int (- \<lfloor>r\<rfloor> - 1) + 1"
    by (simp_all, linarith+)
  then have f: "\<lfloor>- r\<rfloor> = - \<lfloor>r\<rfloor> - 1" by (rule floor_unique)
  show ?thesis by (simp add: halfEven_def Let_def f)
qed

subsection \<open>The exponent\<close>

lemma ulp64_pos: "0 < ulp64 x"
  by (simp add: ulp64_def)

lemma expo64_eq:
  assumes "2 powi e \<le> \<bar>x\<bar>" and "\<bar>x\<bar> < 2 powi (e + 1)" and "- 1022 \<le> e"
  shows "expo64 x = e"
proof -
  have pos: "0 < \<bar>x\<bar>" using assms(1) by (smt (verit) zero_less_power_int)
  have two: "(1::real) < 2" "(0::real) \<le> 2" "(2::real) \<noteq> 0 \<or> 0 < k" for k :: int by simp_all
  have "\<lfloor>log 2 \<bar>x\<bar>\<rfloor> = e"
    using assms(1,2) by (simp only: floor_log_eq_powr_iff[OF pos two(1)] powr_real_of_int'[OF two(2,3)])
  with assms(3) show ?thesis by (simp add: expo64_def)
qed

lemma expo64_small:
  assumes "\<bar>x\<bar> < 2 powi (- 1022)" and "x \<noteq> 0"
  shows "expo64 x = - 1022"
proof -
  from assms(2) have pos: "0 < \<bar>x\<bar>" by simp
  have two: "(1::real) < 2" "(0::real) \<le> 2" "(2::real) \<noteq> 0 \<or> 0 < k" for k :: int by simp_all
  have "log 2 \<bar>x\<bar> < real_of_int (- 1022)"
    using assms(1) by (simp only: log_less_iff[OF two(1) pos] powr_real_of_int'[OF two(2,3)])
  then have "\<lfloor>log 2 \<bar>x\<bar>\<rfloor> < - 1022" by (simp only: floor_less_iff)
  then show ?thesis by (simp add: expo64_def)
qed

lemma expo64_upper: "x \<noteq> 0 \<Longrightarrow> \<bar>x\<bar> < 2 powi (expo64 x + 1)"
proof -
  assume "x \<noteq> 0"
  then have pos: "0 < \<bar>x\<bar>" by simp
  have two: "(1::real) < 2" "(0::real) \<le> 2" "(2::real) \<noteq> 0 \<or> 0 < k" for k :: int by simp_all
  have "log 2 \<bar>x\<bar> < of_int \<lfloor>log 2 \<bar>x\<bar>\<rfloor> + 1" by linarith
  also have "\<dots> \<le> of_int (expo64 x + 1)" by (simp add: expo64_def)
  finally show ?thesis
    by (simp only: log_less_iff[OF two(1) pos] powr_real_of_int'[OF two(2,3)])
qed

lemma expo64_lower:
  assumes "x \<noteq> 0" and "- 1022 < expo64 x \<or> 2 powi (- 1022) \<le> \<bar>x\<bar>"
  shows "2 powi (expo64 x) \<le> \<bar>x\<bar>"
proof -
  from assms(1) have pos: "0 < \<bar>x\<bar>" by simp
  have two: "(1::real) < 2" "(0::real) \<le> 2" "(2::real) \<noteq> 0 \<or> 0 < k" for k :: int by simp_all
  have "- 1022 \<le> \<lfloor>log 2 \<bar>x\<bar>\<rfloor>"
  proof (rule disjE[OF assms(2)])
    assume "- 1022 < expo64 x"
    then show ?thesis by (simp add: expo64_def max_def split: if_splits)
  next
    assume "2 powi (- 1022) \<le> \<bar>x\<bar>"
    then have "2 powr (of_int (- 1022)) \<le> \<bar>x\<bar>" by (simp only: powr_real_of_int'[OF two(2,3)])
    then have "of_int (- 1022) \<le> log 2 \<bar>x\<bar>" by (simp only: le_log_iff[OF two(1) pos])
    then show ?thesis by (simp only: le_floor_iff)
  qed
  then have e: "expo64 x = \<lfloor>log 2 \<bar>x\<bar>\<rfloor>" by (simp add: expo64_def)
  have "of_int (expo64 x) \<le> log 2 \<bar>x\<bar>" unfolding e by linarith
  then show ?thesis
    by (simp only: le_log_iff[OF two(1) pos] powr_real_of_int'[OF two(2,3)])
qed

lemma expo64_mono: "x \<noteq> 0 \<Longrightarrow> \<bar>x\<bar> \<le> \<bar>y\<bar> \<Longrightarrow> expo64 x \<le> expo64 y"
proof -
  assume "x \<noteq> 0" "\<bar>x\<bar> \<le> \<bar>y\<bar>"
  then have "log 2 \<bar>x\<bar> \<le> log 2 \<bar>y\<bar>" by (intro log_mono) simp_all
  then have "\<lfloor>log 2 \<bar>x\<bar>\<rfloor> \<le> \<lfloor>log 2 \<bar>y\<bar>\<rfloor>" by (rule floor_mono)
  then show ?thesis by (simp add: expo64_def)
qed

lemma expo64_ge: "- 1022 \<le> expo64 x"
  by (simp add: expo64_def)

lemma powi_split: "(2::real) powi e = 2 ^ 52 * 2 powi (e - 52)"
proof -
  have "(2::real) powi (52 + (e - 52)) = 2 powi 52 * 2 powi (e - 52)"
    by (rule power_int_add) simp
  then show ?thesis by simp
qed

lemma powi_split1: "(2::real) powi (e + 1) = 2 ^ 53 * 2 powi (e - 52)"
proof -
  have "(2::real) powi (53 + (e - 52)) = 2 powi 53 * 2 powi (e - 52)"
    by (rule power_int_add) simp
  moreover have "53 + (e - 52) = e + 1" by simp
  ultimately show ?thesis by simp
qed

lemma expo64_minus: "expo64 (- x) = expo64 x"
  by (simp add: expo64_def)

subsection \<open>\<open>round64\<close>: values, monotonicity, error, idempotence\<close>

lemma round64_eq:
  assumes "2 powi e \<le> \<bar>x\<bar>" and "\<bar>x\<bar> < 2 powi (e + 1)" and "- 1022 \<le> e"
    and "halfEven (x / 2 powi (e - 52)) = m"
  shows "round64 x = of_int m * 2 powi (e - 52)"
proof -
  have "x \<noteq> 0" using assms(1) by (smt (verit) zero_less_power_int)
  with expo64_eq[OF assms(1-3)] assms(4) show ?thesis
    by (simp add: round64_def ulp64_def)
qed

lemma round64_0: "round64 0 = 0"
  by (simp add: round64_def)

lemma round64_nonneg: "0 \<le> x \<Longrightarrow> 0 \<le> round64 x"
proof -
  assume "0 \<le> x"
  then have "0 \<le> x / ulp64 x" using ulp64_pos[of x] by simp
  then have "halfEven 0 \<le> halfEven (x / ulp64 x)" by (rule halfEven_mono)
  then have "0 \<le> halfEven (x / ulp64 x)" using halfEven_of_int[of 0] by simp
  then show ?thesis using ulp64_pos[of x] by (simp add: round64_def)
qed

lemma round64_upper:
  assumes "0 < x"
  shows "round64 x \<le> 2 powi (expo64 x + 1)"
proof -
  let ?u = "ulp64 x"
  from assms have "x < 2 powi (expo64 x + 1)" using expo64_upper[of x] by simp
  then have "x < 2 ^ 53 * ?u" by (simp only: powi_split1 ulp64_def)
  then have "x / ?u \<le> of_int (2 ^ 53)" using ulp64_pos[of x] by (simp add: pos_divide_le_eq)
  then have "halfEven (x / ?u) \<le> halfEven (of_int (2 ^ 53))" by (rule halfEven_mono)
  then have "halfEven (x / ?u) \<le> 2 ^ 53" by (simp only: halfEven_of_int)
  then have "real_of_int (halfEven (x / ?u)) \<le> real_of_int (2 ^ 53)" by (simp only: of_int_le_iff)
  then have "real_of_int (halfEven (x / ?u)) \<le> 2 ^ 53" by simp
  then have "real_of_int (halfEven (x / ?u)) * ?u \<le> 2 ^ 53 * ?u"
    using ulp64_pos[of x] by (simp only: mult_le_cancel_right_pos)
  with assms show ?thesis by (simp add: round64_def powi_split1[of "expo64 x"] ulp64_def)
qed

lemma round64_lower:
  assumes "0 < x" and "- 1022 < expo64 x \<or> 2 powi (- 1022) \<le> x"
  shows "2 powi (expo64 x) \<le> round64 x"
proof -
  let ?u = "ulp64 x"
  from assms have "2 powi (expo64 x) \<le> x" using expo64_lower[of x] by simp
  then have "2 ^ 52 * ?u \<le> x" by (simp only: powi_split[of "expo64 x"] ulp64_def)
  then have "of_int (2 ^ 52) \<le> x / ?u" using ulp64_pos[of x] by (simp add: pos_le_divide_eq)
  then have "halfEven (of_int (2 ^ 52)) \<le> halfEven (x / ?u)" by (rule halfEven_mono)
  then have "2 ^ 52 \<le> halfEven (x / ?u)" by (simp only: halfEven_of_int)
  then have "real_of_int (2 ^ 52) \<le> real_of_int (halfEven (x / ?u))" by (simp only: of_int_le_iff)
  then have "2 ^ 52 \<le> real_of_int (halfEven (x / ?u))" by simp
  then have "2 ^ 52 * ?u \<le> real_of_int (halfEven (x / ?u)) * ?u"
    using ulp64_pos[of x] by (simp only: mult_le_cancel_right_pos)
  with assms(1) show ?thesis by (simp add: round64_def powi_split[of "expo64 x"] ulp64_def)
qed

lemma round64_mono:
  assumes "0 \<le> x" and "x \<le> y"
  shows "round64 x \<le> round64 y"
proof (cases "x = 0")
  case True
  with assms round64_nonneg[of y] show ?thesis by (simp add: round64_def)
next
  case False
  with assms have x: "0 < x" and y: "0 < y" by simp_all
  from x assms(2) have le: "expo64 x \<le> expo64 y" by (intro expo64_mono) simp_all
  show ?thesis
  proof (cases "expo64 x = expo64 y")
    case True
    then have u: "ulp64 x = ulp64 y" by (simp add: ulp64_def)
    from assms(2) have "x / ulp64 y \<le> y / ulp64 y"
      using ulp64_pos[of y] by (simp add: divide_right_mono)
    then have "halfEven (x / ulp64 y) \<le> halfEven (y / ulp64 y)" by (rule halfEven_mono)
    then have "real_of_int (halfEven (x / ulp64 y)) * ulp64 y
               \<le> real_of_int (halfEven (y / ulp64 y)) * ulp64 y"
      using ulp64_pos[of y] by (simp only: mult_le_cancel_right_pos of_int_le_iff)
    with x y u show ?thesis by (simp add: round64_def)
  next
    case False
    with le have lt: "expo64 x + 1 \<le> expo64 y" by simp
    with expo64_ge[of x] have "- 1022 < expo64 y" by simp
    then have "2 powi (expo64 y) \<le> round64 y" using round64_lower[OF y] by simp
    moreover have "(2::real) powi (expo64 x + 1) \<le> 2 powi (expo64 y)"
      using lt by (intro power_int_increasing) simp_all
    moreover note round64_upper[OF x]
    ultimately show ?thesis by linarith
  qed
qed

lemma round64_error: "\<bar>round64 x - x\<bar> \<le> \<bar>x\<bar> / 2 ^ 53 + 2 powi (- 1075)"
proof (cases "x = 0")
  case True
  then show ?thesis by (simp add: round64_def)
next
  case False
  let ?u = "ulp64 x"
  have "\<bar>of_int (halfEven (x / ?u)) - x / ?u\<bar> * ?u \<le> 1 / 2 * ?u"
    using halfEven_error[of "x / ?u"] ulp64_pos[of x] by (simp only: mult_le_cancel_right_pos)
  moreover have "\<bar>of_int (halfEven (x / ?u)) - x / ?u\<bar> * ?u
                 = \<bar>of_int (halfEven (x / ?u)) * ?u - x\<bar>"
  proof -
    have "\<bar>of_int (halfEven (x / ?u)) - x / ?u\<bar> * \<bar>?u\<bar>
          = \<bar>(of_int (halfEven (x / ?u)) - x / ?u) * ?u\<bar>" by (simp only: abs_mult)
    also have "(of_int (halfEven (x / ?u)) - x / ?u) * ?u = of_int (halfEven (x / ?u)) * ?u - x"
      using ulp64_pos[of x] by (simp add: left_diff_distrib)
    finally show ?thesis using ulp64_pos[of x] by simp
  qed
  ultimately have err: "\<bar>round64 x - x\<bar> \<le> ?u / 2" using False by (simp add: round64_def)
  show ?thesis
  proof (cases "2 powi (- 1022) \<le> \<bar>x\<bar>")
    case True
    with False have "2 powi (expo64 x) \<le> \<bar>x\<bar>" by (intro expo64_lower) simp_all
    then have "2 ^ 52 * ?u \<le> \<bar>x\<bar>" by (simp only: powi_split[of "expo64 x"] ulp64_def)
    then have "?u / 2 \<le> \<bar>x\<bar> / 2 ^ 53" by simp
    moreover have "(0::real) \<le> 2 powi (- 1075)" by simp
    ultimately show ?thesis using err by linarith
  next
    case False
    then have "expo64 x = - 1022" using \<open>x \<noteq> 0\<close> by (intro expo64_small) simp_all
    then have "?u = 2 powi (- 1075 + 1)" by (simp add: ulp64_def)
    also have "\<dots> = 2 powi (- 1075) * 2" by (rule power_int_add_1) simp
    finally have "?u / 2 = 2 powi (- 1075)" by (simp only: nonzero_mult_div_cancel_right)
    moreover have "0 \<le> \<bar>x\<bar> / 2 ^ 53" by simp
    ultimately show ?thesis using err by linarith
  qed
qed

lemma round64_minus: "round64 (- x) = - round64 x"
  by (simp add: round64_def ulp64_def expo64_minus halfEven_minus)

lemma round64_abs: "round64 \<bar>x\<bar> = \<bar>round64 x\<bar>"
proof (cases "0 \<le> x")
  case True
  with round64_nonneg[of x] show ?thesis by simp
next
  case False
  then have "0 \<le> - x" by simp
  then have "0 \<le> round64 (- x)" by (rule round64_nonneg)
  with False show ?thesis by (simp add: round64_minus)
qed

lemma round64_idem_pos:
  assumes "0 < x"
  shows "round64 (round64 x) = round64 x"
proof -
  let ?e = "expo64 x"
  let ?u = "2 powi (?e - 52) :: real"
  let ?h = "halfEven (x / ?u)"
  have u: "0 < ?u" by simp
  from assms have y: "round64 x = of_int ?h * ?u" by (simp add: round64_def ulp64_def)
  have up: "round64 x \<le> 2 powi (?e + 1)" using round64_upper[OF assms] .
  have nn: "0 \<le> round64 x" using assms round64_nonneg[of x] by simp
  show ?thesis
  proof (cases "round64 x = 0")
    case True
    then show ?thesis by (simp add: round64_def)
  next
    case nz: False
    show ?thesis
    proof (cases "round64 x = 2 powi (?e + 1)")
      case True
      have "round64 (2 powi (?e + 1)) = of_int (2 ^ 52) * 2 powi ((?e + 1) - 52)"
      proof (rule round64_eq)
        show "(2::real) powi (?e + 1) \<le> \<bar>2 powi (?e + 1)\<bar>" by simp
        have "(2::real) powi (?e + 1 + 1) = 2 powi (?e + 1) * 2" by (rule power_int_add_1) simp
        then show "\<bar>(2::real) powi (?e + 1)\<bar> < 2 powi (?e + 1 + 1)" by simp
        show "- 1022 \<le> ?e + 1" using expo64_ge[of x] by simp
        show "halfEven (2 powi (?e + 1) / 2 powi (?e + 1 - 52)) = 2 ^ 52"
          using halfEven_of_int[of "2 ^ 52"] by (simp add: powi_split[of "?e + 1"])
      qed
      then show ?thesis using True by (simp add: powi_split[of "?e + 1"])
    next
      case False
      with up have lt: "round64 x < 2 powi (?e + 1)" by simp
      have h: "halfEven (round64 x / ?u) = ?h"
        using halfEven_of_int[of ?h] by (simp add: y)
      show ?thesis
      proof (cases "2 powi ?e \<le> round64 x")
        case True
        have "round64 (round64 x) = of_int ?h * ?u"
          using True lt nn expo64_ge[of x] h by (intro round64_eq) simp_all
        then show ?thesis by (simp only: y)
      next
        case False
        have small: "?e = - 1022"
        proof (rule ccontr)
          assume "?e \<noteq> - 1022"
          with expo64_ge[of x] have "- 1022 < ?e" by simp
          with round64_lower[OF assms] False show False by simp
        qed
        with False have "\<bar>round64 x\<bar> < 2 powi (- 1022)" using nn by simp
        then have "expo64 (round64 x) = - 1022" using nz by (rule expo64_small)
        with small have e2: "expo64 (round64 x) = ?e" by simp
        have u2: "ulp64 (round64 x) = ?u" by (simp only: ulp64_def e2)
        have "round64 (round64 x) = of_int (halfEven (round64 x / ?u)) * ?u"
          using nz by (simp only: round64_def[of "round64 x"] if_False u2)
        also have "\<dots> = of_int ?h * ?u" by (simp only: h)
        also have "\<dots> = round64 x" by (simp only: y)
        finally show ?thesis .
      qed
    qed
  qed
qed

lemma round64_idem: "round64 (round64 x) = round64 x"
proof (cases "0 < x")
  case True
  then show ?thesis by (rule round64_idem_pos)
next
  case False
  show ?thesis
  proof (cases "x = 0")
    case True
    then show ?thesis by (simp add: round64_def)
  next
    case nz: False
    with False have "0 < - x" by simp
    then have "round64 (round64 (- x)) = round64 (- x)" by (rule round64_idem_pos)
    then show ?thesis by (simp add: round64_minus)
  qed
qed

text \<open>
  Two ways to compute \<open>round64\<close> at a given number: a number with a significand of 53
  bits is its own rounding; otherwise the rounding is the multiple \<open>m\<close> of the unit in
  the last place from which the number differs by less than half a unit.
\<close>

lemma round64_exact:
  assumes "x = of_int m * 2 powi k" and "2 ^ 52 \<le> \<bar>m\<bar>" and "\<bar>m\<bar> < 2 ^ 53" and "- 1074 \<le> k"
  shows "round64 x = x"
proof -
  have ax: "\<bar>x\<bar> = of_int \<bar>m\<bar> * 2 powi k" by (simp add: assms(1) abs_mult)
  have "real_of_int (2 ^ 52) \<le> of_int \<bar>m\<bar>" using assms(2) by (simp only: of_int_le_iff)
  then have "2 ^ 52 * 2 powi k \<le> of_int \<bar>m\<bar> * (2::real) powi k" by simp
  then have lo: "2 powi (k + 52) \<le> \<bar>x\<bar>" using powi_split[of "k + 52"] by (simp add: ax)
  have "of_int \<bar>m\<bar> < real_of_int (2 ^ 53)" using assms(3) by (simp only: of_int_less_iff)
  then have "of_int \<bar>m\<bar> * (2::real) powi k < 2 ^ 53 * 2 powi k" by simp
  then have hi: "\<bar>x\<bar> < 2 powi (k + 52 + 1)" using powi_split1[of "k + 52"] by (simp add: ax)
  have "round64 x = of_int m * 2 powi (k + 52 - 52)"
  proof (rule round64_eq[OF lo hi])
    show "- 1022 \<le> k + 52" using assms(4) by simp
    show "halfEven (x / 2 powi (k + 52 - 52)) = m"
      using halfEven_of_int[of m] by (simp add: assms(1))
  qed
  then show ?thesis by (simp add: assms(1))
qed

lemma round64_near:
  assumes "2 powi e \<le> \<bar>x\<bar>" and "\<bar>x\<bar> < 2 powi (e + 1)" and "- 1022 \<le> e"
    and "\<bar>x / 2 powi (e - 52) - of_int m\<bar> < 1 / 2" and "y = of_int m * 2 powi (e - 52)"
  shows "round64 x = y"
  using round64_eq[OF assms(1-3) halfEven_near[OF assms(4)]] assms(5) by simp

lemma round64_1: "round64 1 = 1"
  using round64_eq[of 0 1 "2 ^ 52"] by (simp add: halfEven_near)

lemma round64_2: "round64 2 = 2"
  using round64_eq[of 1 2 "2 ^ 52"] by (simp add: halfEven_near)

lemma round64_3: "round64 3 = 3"
  using round64_eq[of 1 3 "3 * 2 ^ 51"] by (simp add: halfEven_near)

lemma round64_4: "round64 4 = 4"
  using round64_eq[of 2 4 "2 ^ 52"] by (simp add: halfEven_near)

lemma round64_9: "round64 9 = 9"
  using round64_eq[of 3 9 "9 * 2 ^ 49"] by (simp add: halfEven_near)

lemma sqrt_between:
  assumes "0 \<le> lo" and "lo * lo < a" and "0 \<le> hi" and "a < hi * hi"
  shows "lo < sqrt a \<and> sqrt a < hi"
proof -
  from assms(2) have "lo < sqrt a" by (intro real_less_rsqrt) (simp add: power2_eq_square)
  moreover from assms(3,4) have "sqrt a < hi"
    by (intro real_less_lsqrt) (simp_all add: power2_eq_square)
  ultimately show ?thesis by simp
qed

lemma near_scaled:
  fixes s u :: real
  assumes "(of_int m - 1 / 2) * u < s" and "s < (of_int m + 1 / 2) * u" and "0 < u"
  shows "\<bar>s / u - of_int m\<bar> < 1 / 2"
proof -
  from assms(1,3) have "of_int m - 1 / 2 < s / u" by (simp only: pos_less_divide_eq)
  moreover from assms(2,3) have "s / u < of_int m + 1 / 2" by (simp only: pos_divide_less_eq)
  ultimately show ?thesis by (simp only: abs_less_iff) linarith
qed

lemma sqrt64_near:
  fixes a y :: real
  assumes "2 powi e * 2 powi e \<le> a" and "a < 2 powi (e + 1) * 2 powi (e + 1)"
    and "- 1022 \<le> e"
    and "(0::real) \<le> (of_int m - 1 / 2) * 2 powi (e - 52)"
    and "((of_int m - 1 / 2) * 2 powi (e - 52)) * ((of_int m - 1 / 2) * 2 powi (e - 52)) < a"
    and "a < ((of_int m + 1 / 2) * 2 powi (e - 52)) * ((of_int m + 1 / 2) * 2 powi (e - 52))"
    and "y = of_int m * 2 powi (e - 52)"
  shows "sqrt64 a = y"
  unfolding sqrt64_def
proof (rule round64_near[OF _ _ assms(3) _ assms(7)])
  have "sqrt (2 powi e * 2 powi e) \<le> sqrt a" using assms(1) by (simp only: real_sqrt_le_iff)
  then have lo: "2 powi e \<le> sqrt a" by simp
  then have nn: "0 \<le> sqrt a" by (smt (verit) zero_less_power_int)
  from lo nn show "2 powi e \<le> \<bar>sqrt a\<bar>" by simp
  have "sqrt a < sqrt (2 powi (e + 1) * 2 powi (e + 1))"
    using assms(2) by (simp only: real_sqrt_less_iff)
  with nn show "\<bar>sqrt a\<bar> < 2 powi (e + 1)" by simp
  have hi: "0 \<le> (of_int m + 1 / 2) * (2::real) powi (e - 52)"
  proof -
    have "(of_int m - 1 / 2) * (2::real) powi (e - 52) \<le> (of_int m + 1 / 2) * 2 powi (e - 52)"
      by (intro mult_right_mono) simp_all
    with assms(4) show ?thesis by linarith
  qed
  have "(of_int m - 1 / 2) * 2 powi (e - 52) < sqrt a
        \<and> sqrt a < (of_int m + 1 / 2) * 2 powi (e - 52)"
    using assms(4,5) hi assms(6) by (rule sqrt_between)
  then show "\<bar>sqrt a / 2 powi (e - 52) - of_int m\<bar> < 1 / 2"
    by (intro near_scaled) simp_all
qed

lemma powi_tiny: "(2::real) powi (- 1075) \<le> 1 / 2 ^ 100"
proof -
  have "(2::real) powi (- 1075) \<le> 2 powi (- 100)" by (rule power_int_increasing) simp_all
  then show ?thesis by simp
qed

lemma round64_lower_error: "0 \<le> x \<Longrightarrow> x - x / 2 ^ 53 - 1 / 2 ^ 100 \<le> round64 x"
  using round64_error[of x] powi_tiny by (simp add: abs_le_iff) 

lemma round64_upper_error: "0 \<le> x \<Longrightarrow> round64 x \<le> x + x / 2 ^ 53 + 1 / 2 ^ 100"
  using round64_error[of x] powi_tiny by (simp add: abs_le_iff)


section \<open>The colouring policy and the evaluator: proofs\<close>

subsection \<open>The escape test\<close>

lemma sumSquares_escaped:
  assumes "4 < sumSquares w"
  shows "2 < Re w * Re w \<or> 2 < Im w * Im w"
proof -
  let ?a = "mul64 (Re w) (Re w)" and ?b = "mul64 (Im w) (Im w)"
  have a: "0 \<le> ?a" unfolding mul64_def by (rule round64_nonneg) simp
  have b: "0 \<le> ?b" unfolding mul64_def by (rule round64_nonneg) simp
  have "4 < ?a + ?b"
  proof (rule ccontr)
    assume "\<not> 4 < ?a + ?b"
    then have "round64 (?a + ?b) \<le> round64 4" using a b by (intro round64_mono) simp_all
    with assms show False by (simp add: sumSquares_def add64_def round64_4)
  qed
  then have "2 < ?a \<or> 2 < ?b" by linarith
  moreover have "2 < x * x" if "2 < mul64 x x" for x
  proof (rule ccontr)
    assume "\<not> 2 < x * x"
    then have "round64 (x * x) \<le> round64 2" by (intro round64_mono) simp_all
    with that show False by (simp add: mul64_def round64_2)
  qed
  ultimately show ?thesis by blast
qed

lemma sqrt2_less: "2 < x * x \<Longrightarrow> sqrt 2 < \<bar>x\<bar>"
proof -
  assume "2 < x * x"
  then have "sqrt 2 < sqrt (x * x)" by (simp only: real_sqrt_less_iff)
  then show ?thesis by simp
qed

lemma sumSquares_margin:
  assumes "2 + 1 / 2 ^ 51 \<le> cmod c"
  shows "4 < sumSquares c"
proof -
  let ?X = "Re c * Re c" and ?Y = "Im c * Im c"
  have "(2 + 1 / 2 ^ 51) * (2 + 1 / 2 ^ 51) \<le> cmod c * cmod c"
    using assms by (intro mult_mono) simp_all
  also have "cmod c * cmod c = ?X + ?Y"
    by (simp add: cmod_def power2_eq_square)
  finally have S: "4 + 1 / 2 ^ 49 \<le> ?X + ?Y" by simp
  have a: "?X - ?X / 2 ^ 53 - 1 / 2 ^ 100 \<le> mul64 (Re c) (Re c)"
    unfolding mul64_def by (rule round64_lower_error) simp
  have b: "?Y - ?Y / 2 ^ 53 - 1 / 2 ^ 100 \<le> mul64 (Im c) (Im c)"
    unfolding mul64_def by (rule round64_lower_error) simp
  from S a b have "4 + 1 / 2 ^ 50 \<le> mul64 (Re c) (Re c) + mul64 (Im c) (Im c)" by simp
  then have "round64 (4 + 1 / 2 ^ 50)
             \<le> round64 (mul64 (Re c) (Re c) + mul64 (Im c) (Im c))"
    by (intro round64_mono) simp_all
  moreover have "round64 (4 + 1 / 2 ^ 50) = 4 + 1 / 2 ^ 50"
    by (rule round64_exact[of _ "2 ^ 52 + 1" "- 50"]) simp_all
  ultimately show ?thesis by (simp add: sumSquares_def add64_def)
qed

lemma mandelbrotLoop_escaped:
  "mandelbrotLoop c maxIter n z = (k, w) \<Longrightarrow> k < maxIter
   \<Longrightarrow> 4 < sumSquares w \<and> round64 (Re w) = Re w \<and> round64 (Im w) = Im w"
proof (induction c maxIter n z rule: mandelbrotLoop.induct)
  case (1 c maxIter n z)
  show ?case
  proof (cases "n < maxIter")
    case True
    let ?z = "complexAdd (complexMul z z) c"
    show ?thesis
    proof (cases "4 < sumSquares ?z")
      case escaped: True
      with True "1.prems"(1) have "w = ?z"
        by (simp only: mandelbrotLoop.simps[of c maxIter n z] Let_def if_True prod.inject)
      with escaped show ?thesis by (simp add: complexAdd_def add64_def round64_idem)
    next
      case False
      with True "1.prems"(1) have "mandelbrotLoop c maxIter (n + 1) ?z = (k, w)"
        by (simp add: mandelbrotLoop.simps[of c maxIter n z] Let_def)
      with "1.IH"[OF True refl False] "1.prems"(2) show ?thesis by simp
    qed
  next
    case False
    with "1.prems" show ?thesis by (simp add: mandelbrotLoop.simps[of c maxIter n z])
  qed
qed

lemma first_iterate:
  assumes "round64 (Re c) = Re c" and "round64 (Im c) = Im c"
  shows "complexAdd (complexMul 0 0) c = c"
  using assms
  by (simp add: complexAdd_def complexMul_def add64_def sub64_def mul64_def round64_0
        complex_eq_iff)

subsection \<open>\<open>math.Hypot\<close>\<close>

lemma Hypot_lower:
  assumes "round64 p0 = p0" and "round64 q0 = q0"
  shows "max \<bar>p0\<bar> \<bar>q0\<bar> \<le> Hypot p0 q0"
proof -
  define p where "p = max \<bar>p0\<bar> \<bar>q0\<bar>"
  define q where "q = min \<bar>p0\<bar> \<bar>q0\<bar>"
  have rp: "round64 p = p"
    using assms round64_abs[of p0] round64_abs[of q0] by (simp add: p_def max_def)
  have p0: "0 \<le> p" by (simp add: p_def)
  have q0: "0 \<le> q" by (simp add: q_def)
  have H: "Hypot p0 q0
           = (if p = 0 then 0
              else mul64 p (sqrt64 (add64 1 (mul64 (div64 q p) (div64 q p)))))"
    by (simp add: Hypot_def Let_def p_def q_def max_def min_def)
  show ?thesis
  proof (cases "p = 0")
    case True
    with H show ?thesis by (simp add: p_def[symmetric])
  next
    case False
    let ?t = "mul64 (div64 q p) (div64 q p)"
    have t: "0 \<le> ?t" unfolding mul64_def by (rule round64_nonneg) simp
    then have "round64 1 \<le> round64 (1 + ?t)" by (intro round64_mono) simp_all
    then have one: "1 \<le> add64 1 ?t" by (simp add: add64_def round64_1)
    then have "1 \<le> sqrt (add64 1 ?t)" by simp
    then have "round64 1 \<le> round64 (sqrt (add64 1 ?t))" by (intro round64_mono) simp_all
    then have s: "1 \<le> sqrt64 (add64 1 ?t)" by (simp add: sqrt64_def round64_1)
    with p0 have "p \<le> p * sqrt64 (add64 1 ?t)" by (simp add: mult_le_cancel_left1)
    with p0 have "round64 p \<le> round64 (p * sqrt64 (add64 1 ?t))" by (intro round64_mono)
    with False H rp show ?thesis by (simp add: mul64_def p_def[symmetric])
  qed
qed

text \<open>
  For a point that passes the escape test \<open>math.Hypot\<close> returns a number close to 2 or
  above: the rounding errors of its five operations are followed one by one.
\<close>

lemma square_lower:
  fixes u A B :: real
  assumes "0 \<le> u" and "A - B \<le> u" and "0 \<le> A" and "A \<le> 1" and "0 \<le> B" and "B \<le> 1"
  shows "A * A - 2 * B \<le> u * u"
proof (cases "B \<le> A")
  case True
  with assms have "(A - B) * (A - B) \<le> u * u" by (intro mult_mono) simp_all
  moreover have "(A - B) * (A - B) = A * A - 2 * (A * B) + B * B" by (simp add: algebra_simps)
  moreover have "A * B \<le> 1 * B" using assms by (intro mult_right_mono) simp_all
  moreover have "0 \<le> B * B" by simp
  ultimately show ?thesis by linarith
next
  case False
  then have "A * A \<le> B * B" using assms by (intro mult_mono) simp_all
  moreover have "B * B \<le> 1 * B" using assms by (intro mult_right_mono) simp_all
  moreover have "0 \<le> u * u" by simp
  ultimately show ?thesis using assms by linarith
qed

lemma scale_step:
  fixes x L c c' k e d :: real
  assumes "L * c - k \<le> x" and "0 \<le> L" and "0 \<le> k" and "0 \<le> e" and "e \<le> 1"
    and "c' \<le> c * (1 - e)"
  shows "L * c' - (k + d) \<le> x * (1 - e) - d"
proof -
  have "(L * c - k) * (1 - e) \<le> x * (1 - e)" using assms(1,5) by (intro mult_right_mono) simp_all
  moreover have "(L * c - k) * (1 - e) = L * (c * (1 - e)) - k + k * e" by (simp add: algebra_simps)
  moreover have "L * c' \<le> L * (c * (1 - e))" using assms(2,6) by (intro mult_left_mono)
  moreover have "0 \<le> k * e" using assms(3,4) by simp
  ultimately show ?thesis by linarith
qed

lemma Hypot_near_two:
  fixes p q :: real
  assumes q0: "0 \<le> q" and qp: "q \<le> p" and p0: "0 < p" and p2: "p < 2"
    and esc: "4 < round64 (round64 (p * p) + round64 (q * q))"
  shows "2 - 11 / 2 ^ 53 \<le> mul64 p (sqrt64 (add64 1 (mul64 (div64 q p) (div64 q p))))"
proof -
  define e :: real where "e = 1 / 2 ^ 53"
  define d :: real where "d = 1 / 2 ^ 100"
  have e: "0 < e" "e < 1 / 8" and d: "0 < d" "d < 1 / 8" by (simp_all add: e_def d_def)
  have lo: "x - x * e - d \<le> round64 x" if "0 \<le> x" for x
    using round64_lower_error[OF that] by (simp add: e_def d_def)
  have hi: "round64 x \<le> x + x * e + d" if "0 \<le> x" for x
    using round64_upper_error[OF that] by (simp add: e_def d_def)
  define S where "S = p * p + q * q"
  define r where "r = q / p"
  define R where "R = r * r"
  have r: "0 \<le> r" "r \<le> 1" using q0 qp p0 by (simp_all add: r_def)
  have R: "0 \<le> R" "R \<le> 1" using r by (simp_all add: R_def mult_le_one)
  have SR: "p * p * (1 + R) = S" using p0 by (simp add: S_def R_def r_def field_simps)
  have pp: "0 < p * p" "p * p < 4" using p0 p2 by (simp_all add: mult_strict_mono[of p 2 p 2, simplified])
  have a: "0 \<le> round64 (p * p)" "0 \<le> round64 (q * q)" by (simp_all add: round64_nonneg)
  have "4 < round64 (p * p) + round64 (q * q)"
  proof (rule ccontr)
    assume "\<not> 4 < round64 (p * p) + round64 (q * q)"
    then have "round64 (round64 (p * p) + round64 (q * q)) \<le> round64 4"
      using a by (intro round64_mono) simp_all
    with esc show False by (simp add: round64_4)
  qed
  moreover have "round64 (p * p) \<le> p * p + p * p * e + d" by (rule hi) simp
  moreover have "round64 (q * q) \<le> q * q + q * q * e + d" by (rule hi) simp
  ultimately have "4 < S + S * e + 2 * d" by (simp add: S_def algebra_simps)
  then have S: "4 - 4 * e - 2 * d < S"
  proof (cases "4 \<le> S")
    case True
    with e d show ?thesis by simp
  next
    case False
    then have "S * e \<le> 4 * e" using e by (intro mult_right_mono) simp_all
    with \<open>4 < S + S * e + 2 * d\<close> show ?thesis by linarith
  qed
  let ?u = "div64 q p"
  have u0: "0 \<le> ?u" unfolding div64_def using q0 p0 by (intro round64_nonneg) simp
  have "r - r * e - d \<le> ?u" unfolding div64_def r_def using q0 p0 by (intro lo) simp
  then have "r * (1 - e) - d \<le> ?u" by (simp add: algebra_simps)
  moreover have "0 \<le> r * (1 - e)" "r * (1 - e) \<le> 1"
    using r e by (simp_all add: mult_le_one)
  ultimately have "r * (1 - e) * (r * (1 - e)) - 2 * d \<le> ?u * ?u"
    using u0 d by (intro square_lower) simp_all
  moreover have "r * (1 - e) * (r * (1 - e)) = R * ((1 - e) * (1 - e))"
    by (simp add: R_def algebra_simps)
  moreover have "1 - 2 * e \<le> (1 - e) * (1 - e)" by (simp add: algebra_simps)
  then have "R * (1 - 2 * e) \<le> R * ((1 - e) * (1 - e))" using R by (intro mult_left_mono)
  ultimately have uu: "R * (1 - 2 * e) - 2 * d \<le> ?u * ?u" by linarith
  let ?t = "mul64 ?u ?u"
  have "?u * ?u - ?u * ?u * e - d \<le> ?t" unfolding mul64_def by (rule lo) simp
  then have "?u * ?u * (1 - e) - d \<le> ?t" by (simp add: algebra_simps)
  moreover have "R * (1 - 3 * e) - (2 * d + d) \<le> ?u * ?u * (1 - e) - d"
  proof (rule scale_step[OF uu R(1)])
    show "1 - 3 * e \<le> (1 - 2 * e) * (1 - e)" by (simp add: algebra_simps)
  qed (use e d in simp_all)
  ultimately have t: "R * (1 - 3 * e) - 3 * d \<le> ?t" by simp
  have t0: "0 \<le> ?t" unfolding mul64_def by (rule round64_nonneg) simp
  let ?a = "add64 1 ?t"
  have "(1 + ?t) - (1 + ?t) * e - d \<le> ?a" unfolding add64_def using t0 by (intro lo) simp
  then have "(1 + ?t) * (1 - e) - d \<le> ?a" by (simp add: algebra_simps)
  moreover have "(1 + R) * (1 - 3 * e) - 3 * d \<le> 1 + ?t"
  proof -
    have "(1 + R) * (1 - 3 * e) = 1 - 3 * e + R * (1 - 3 * e)" by (simp add: algebra_simps)
    with t e show ?thesis by linarith
  qed
  then have "(1 + R) * (1 - 4 * e) - (3 * d + d) \<le> (1 + ?t) * (1 - e) - d"
  proof (rule scale_step)
    show "1 - 4 * e \<le> (1 - 3 * e) * (1 - e)" by (simp add: algebra_simps)
  qed (use R e d in simp_all)
  ultimately have a1: "(1 + R) * (1 - 4 * e) - 4 * d \<le> ?a" by simp
  have a0: "0 \<le> ?a" unfolding add64_def using t0 by (intro round64_nonneg) simp
  have "p * p * ((1 + R) * (1 - 4 * e) - 4 * d) \<le> p * p * ?a"
    using a1 pp by (intro mult_left_mono) simp_all
  moreover have "p * p * ((1 + R) * (1 - 4 * e) - 4 * d) = S * (1 - 4 * e) - 4 * d * (p * p)"
    by (simp add: SR[symmetric] algebra_simps)
  moreover have "(4 - 4 * e - 2 * d) * (1 - 4 * e) \<le> S * (1 - 4 * e)"
    using S e by (intro mult_right_mono) simp_all
  moreover have "4 * d * (p * p) \<le> 4 * d * 4" using pp d by (intro mult_left_mono) simp_all
  ultimately have "(4 - 4 * e - 2 * d) * (1 - 4 * e) - 16 * d \<le> p * p * ?a" by linarith
  moreover have "(2 - 6 * e) * (2 - 6 * e) \<le> (4 - 4 * e - 2 * d) * (1 - 4 * e) - 16 * d"
    by (simp add: e_def d_def)
  ultimately have "(2 - 6 * e)\<^sup>2 \<le> p * p * ?a" by (simp add: power2_eq_square)
  then have "2 - 6 * e \<le> sqrt (p * p * ?a)" by (rule real_le_rsqrt)
  also have "sqrt (p * p * ?a) = p * sqrt ?a" using p0 by (simp add: real_sqrt_mult)
  finally have root: "2 - 6 * e \<le> p * sqrt ?a" .
  let ?s = "sqrt64 ?a"
  have "sqrt ?a - sqrt ?a * e - d \<le> ?s" unfolding sqrt64_def using a0 by (intro lo) simp
  then have "p * (sqrt ?a * (1 - e) - d) \<le> p * ?s"
    using p0 by (intro mult_left_mono) (simp_all add: algebra_simps)
  moreover have "p * (sqrt ?a * (1 - e) - d) = p * sqrt ?a * (1 - e) - p * d"
    by (simp add: algebra_simps)
  moreover have "(2 - 6 * e) * (1 - e) \<le> p * sqrt ?a * (1 - e)"
    using root e by (intro mult_right_mono) simp_all
  moreover have "p * d \<le> 2 * d" using p2 d by simp
  ultimately have ps: "(2 - 6 * e) * (1 - e) - 2 * d \<le> p * ?s" by linarith
  have s0: "0 \<le> ?s" unfolding sqrt64_def using a0 by (intro round64_nonneg) simp
  have "0 \<le> p * ?s" using p0 s0 by simp
  then have "p * ?s - p * ?s * e - d \<le> round64 (p * ?s)" by (rule lo)
  then have "p * ?s - p * ?s * e - d \<le> mul64 p ?s" by (simp only: mul64_def[of p ?s])
  then have "p * ?s * (1 - e) - d \<le> mul64 p ?s" by (simp add: algebra_simps)
  moreover have "((2 - 6 * e) * (1 - e) - 2 * d) * (1 - e) \<le> p * ?s * (1 - e)"
    using ps e by (intro mult_right_mono) simp_all
  moreover have "2 - 11 * e \<le> ((2 - 6 * e) * (1 - e) - 2 * d) * (1 - e) - d"
    by (simp add: e_def d_def)
  ultimately have "2 - 11 * e \<le> mul64 p ?s" by linarith
  then show ?thesis by (simp add: e_def)
qed

lemma Hypot_max_min:
  "Hypot a b =
     (if max \<bar>a\<bar> \<bar>b\<bar> = 0 then 0
      else mul64 (max \<bar>a\<bar> \<bar>b\<bar>)
             (sqrt64 (add64 1 (mul64 (div64 (min \<bar>a\<bar> \<bar>b\<bar>) (max \<bar>a\<bar> \<bar>b\<bar>))
                                     (div64 (min \<bar>a\<bar> \<bar>b\<bar>) (max \<bar>a\<bar> \<bar>b\<bar>))))))"
  by (simp add: Hypot_def Let_def max_def min_def)

lemma cmplxAbs_near_two:
  assumes esc: "4 < sumSquares z" and r: "round64 (Re z) = Re z" "round64 (Im z) = Im z"
  shows "2 - 11 / 2 ^ 53 \<le> cmplxAbs z"
proof -
  define p where "p = max \<bar>Re z\<bar> \<bar>Im z\<bar>"
  define q where "q = min \<bar>Re z\<bar> \<bar>Im z\<bar>"
  have q0: "0 \<le> q" and qp: "q \<le> p" by (simp_all add: p_def q_def)
  from sumSquares_escaped[OF esc] have "sqrt 2 < \<bar>Re z\<bar> \<or> sqrt 2 < \<bar>Im z\<bar>"
    using sqrt2_less by blast
  then have "sqrt 2 < p" by (simp add: p_def less_max_iff_disj)
  moreover have "0 < sqrt 2" by simp
  ultimately have p0: "0 < p" by linarith
  show ?thesis
  proof (cases "p < 2")
    case True
    have "sumSquares z = round64 (round64 (p * p) + round64 (q * q))"
      by (simp add: sumSquares_def add64_def mul64_def p_def q_def max_def min_def add.commute)
    with esc have "4 < round64 (round64 (p * p) + round64 (q * q))" by simp
    from Hypot_near_two[OF q0 qp p0 True this]
    have "2 - 11 / 2 ^ 53 \<le> mul64 p (sqrt64 (add64 1 (mul64 (div64 q p) (div64 q p))))" .
    moreover have "cmplxAbs z = mul64 p (sqrt64 (add64 1 (mul64 (div64 q p) (div64 q p))))"
      using p0 by (simp add: cmplxAbs_def Hypot_max_min p_def[symmetric] q_def[symmetric])
    ultimately show ?thesis by simp
  next
    case False
    then have "2 \<le> p" by simp
    moreover have "p \<le> cmplxAbs z" using Hypot_lower[OF r] by (simp only: cmplxAbs_def p_def)
    ultimately show ?thesis by simp
  qed
qed

lemma cmplxAbs_escaped:
  assumes "mandelbrotIterations c maxIter = (n, z)" and "n < maxIter"
  shows "4 < sumSquares z \<and> 2 - 11 / 2 ^ 53 \<le> cmplxAbs z"
proof -
  from assms have "4 < sumSquares z \<and> round64 (Re z) = Re z \<and> round64 (Im z) = Im z"
    using mandelbrotLoop_escaped[of c maxIter 0 0 n z] by (simp add: mandelbrotIterations_def)
  then show ?thesis using cmplxAbs_near_two by blast
qed

lemma Hypot_eval:
  assumes "0 \<le> q" and "q \<le> p" and "0 < p"
    and "div64 q p = q'" and "mul64 q' q' = t" and "add64 1 t = a" and "sqrt64 a = s"
    and "mul64 p s = h"
  shows "Hypot p q = h"
  using assms by (simp add: Hypot_def Let_def)

subsection \<open>The evaluator and \<open>math.Hypot\<close> at given points\<close>

text \<open>
  Every pair of \<open>float64\<close> is a point \<open>c\<close> of some render: at the pixel \<open>(0, 0)\<close> the
  pixel mapping gives \<open>c = xmin + ymin i\<close>.
\<close>

lemma pixel_origin:
  assumes "round64 (xmin p) = xmin p" and "round64 (ymin p) = ymin p"
  shows "pixelColour p 0 0
         = (let (iter, z) = mandelbrotIterations (Complex (xmin p) (ymin p)) (iters p)
            in Interpolate (Colors (cmap p)) (colourT iter z (iters p) (smooth p)))"
  using assms
  by (simp add: pixelColour_def Let_def add64_def mul64_def div64_def round64_0)

lemma escape_boundary:
  "mandelbrotIterations (Complex 2 (1 / 2 ^ 30)) 1 = (1, Complex 2 (1 / 2 ^ 30))
   \<and> mandelbrotIterations (Complex 2 (1 / 2 ^ 30)) 50 = (1, Complex 6 (5 / 2 ^ 30))"
proof -
  define c where "c = Complex 2 (1 / 2 ^ 30)"
  define z where "z = Complex 6 (5 / 2 ^ 30)"
  have "round64 (1 / 2 ^ 30) = 1 / 2 ^ 30"
    by (rule round64_exact[of _ "2 ^ 52" "- 82"]) simp_all
  then have first: "complexAdd (complexMul 0 0) c = c"
    unfolding c_def by (intro first_iterate) (simp_all add: round64_2)
  have m1: "mul64 2 2 = 4" by (simp add: mul64_def round64_4)
  have m2: "mul64 (1 / 2 ^ 30) (1 / 2 ^ 30) = 1 / 2 ^ 60"
    unfolding mul64_def by (rule round64_near[of "- 60" _ "2 ^ 52"]) simp_all
  have a: "add64 4 (1 / 2 ^ 60) = 4"
    unfolding add64_def by (rule round64_near[of 2 _ "2 ^ 52"]) simp_all
  have test: "sumSquares c = 4"
    by (simp only: sumSquares_def c_def complex.sel m1 m2 a)
  have s: "sub64 4 (1 / 2 ^ 60) = 4"
    unfolding sub64_def by (rule round64_near[of 1 _ "2 ^ 53"]) simp_all
  have m3: "mul64 2 (1 / 2 ^ 30) = 1 / 2 ^ 29"
    unfolding mul64_def by (rule round64_near[of "- 29" _ "2 ^ 52"]) simp_all
  have m4: "mul64 (1 / 2 ^ 30) 2 = 1 / 2 ^ 29"
    unfolding mul64_def by (rule round64_near[of "- 29" _ "2 ^ 52"]) simp_all
  have a2: "add64 (1 / 2 ^ 29) (1 / 2 ^ 29) = 1 / 2 ^ 28"
    unfolding add64_def by (rule round64_near[of "- 28" _ "2 ^ 52"]) simp_all
  have a3: "add64 4 2 = 6"
    unfolding add64_def by (rule round64_near[of 2 _ "6 * 2 ^ 50"]) simp_all
  have a4: "add64 (1 / 2 ^ 28) (1 / 2 ^ 30) = 5 / 2 ^ 30"
    unfolding add64_def by (rule round64_near[of "- 28" _ "5 * 2 ^ 50"]) simp_all
  have second: "complexAdd (complexMul c c) c = z"
    by (simp only: complexAdd_def complexMul_def c_def z_def complex.sel m1 m2 m3 m4 s a2 a3 a4)
  have m5: "mul64 6 6 = 36"
    unfolding mul64_def by (rule round64_near[of 5 _ "36 * 2 ^ 47"]) simp_all
  have m6: "mul64 (5 / 2 ^ 30) (5 / 2 ^ 30) = 25 / 2 ^ 60"
    unfolding mul64_def by (rule round64_near[of "- 56" _ "25 * 2 ^ 48"]) simp_all
  have a5: "add64 36 (25 / 2 ^ 60) = 36"
    unfolding add64_def by (rule round64_near[of 5 _ "36 * 2 ^ 47"]) simp_all
  have test2: "sumSquares z = 36"
    by (simp only: sumSquares_def z_def complex.sel m5 m6 a5)
  have "mandelbrotIterations c 1 = (1, c)"
    by (simp add: mandelbrotIterations_def mandelbrotLoop.simps[of _ _ 0 0]
          mandelbrotLoop.simps[of _ 1 1] first test)
  moreover have "mandelbrotIterations c 50 = (1, z)"
    by (simp add: mandelbrotIterations_def mandelbrotLoop.simps[of _ _ 0 0]
          mandelbrotLoop.simps[of _ _ 1 c] first test second test2)
  ultimately show ?thesis by (simp only: c_def z_def)
qed

lemma cmod_boundary: "2 < cmod (Complex 2 (1 / 2 ^ 30))"
proof -
  have "sqrt 4 < sqrt (4 + 1 / 2 ^ 60)" by (simp only: real_sqrt_less_iff) simp
  then show ?thesis by (simp add: cmod_def power2_eq_square)
qed

lemma escape_3: "mandelbrotIterations (Complex 3 0) 1 = (0, Complex 3 0)"
proof -
  define c where "c = Complex 3 0"
  have first: "complexAdd (complexMul 0 0) c = c"
    unfolding c_def by (rule first_iterate) (simp_all add: round64_3 round64_0)
  have "sumSquares c = 9"
    by (simp add: sumSquares_def c_def add64_def mul64_def round64_0 round64_9)
  then have "mandelbrotIterations c 1 = (0, c)"
    by (simp add: mandelbrotIterations_def mandelbrotLoop.simps[of _ _ 0 0] first)
  then show ?thesis by (simp only: c_def)
qed

lemma cmplxAbs_3: "cmplxAbs (Complex 3 0) = 3"
proof -
  have "Hypot 3 0 = 3"
    by (rule Hypot_eval[of 0 3 0 0 1 1])
       (simp_all add: div64_def mul64_def add64_def sqrt64_def round64_0 round64_1 round64_3)
  then show ?thesis by (simp add: cmplxAbs_def)
qed

lemma Hypot_two: "Hypot 2 (1 / 2 ^ 25) = 2"
proof (rule Hypot_eval)
  show "div64 (1 / 2 ^ 25) 2 = 1 / 2 ^ 26"
    unfolding div64_def by (rule round64_near[of "- 26" _ "2 ^ 52"]) simp_all
  show "mul64 (1 / 2 ^ 26) (1 / 2 ^ 26) = 1 / 2 ^ 52"
    unfolding mul64_def by (rule round64_near[of "- 52" _ "2 ^ 52"]) simp_all
  show "add64 1 (1 / 2 ^ 52) = 1 + 1 / 2 ^ 52"
    unfolding add64_def by (rule round64_near[of 0 _ "2 ^ 52 + 1"]) simp_all
  show "sqrt64 (1 + 1 / 2 ^ 52) = 1"
    unfolding sqrt64_def
  proof (rule round64_near[of 0 _ "2 ^ 52"])
    have b: "1 - 1 / 2 ^ 53 < sqrt (1 + 1 / 2 ^ 52) \<and> sqrt (1 + 1 / 2 ^ 52) < 1 + 1 / 2 ^ 53"
      by (rule sqrt_between) simp_all
    then show "2 powi 0 \<le> \<bar>sqrt (1 + 1 / 2 ^ 52)\<bar>" by simp
    from b show "\<bar>sqrt (1 + 1 / 2 ^ 52)\<bar> < 2 powi (0 + 1)" by simp
    from b show "\<bar>sqrt (1 + 1 / 2 ^ 52) / 2 powi (0 - 52) - real_of_int (2 ^ 52)\<bar> < 1 / 2"
      by simp
  qed simp_all
  show "mul64 2 1 = 2" by (simp add: mul64_def round64_2)
qed simp_all

lemma Hypot_below_two:
  "Hypot (9005024665044021 / 2 ^ 52) (45 / 2 ^ 10) = 2 - 1 / 2 ^ 52"
proof (rule Hypot_eval)
  show "div64 (45 / 2 ^ 10) (9005024665044021 / 2 ^ 52) = 6334716353604953 / 2 ^ 58"
    unfolding div64_def by (rule round64_near[of "- 6" _ 6334716353604953]) simp_all
  show "mul64 (6334716353604953 / 2 ^ 58) (6334716353604953 / 2 ^ 58)
        = 8910346078889749 / 2 ^ 64"
    unfolding mul64_def by (rule round64_near[of "- 12" _ 8910346078889749]) simp_all
  show "add64 1 (8910346078889749 / 2 ^ 64) = 4505775004831162 / 2 ^ 52"
    unfolding add64_def by (rule round64_near[of 0 _ 4505775004831162]) simp_all
  show "sqrt64 (4505775004831162 / 2 ^ 52) = 4504687184785744 / 2 ^ 52"
    by (rule sqrt64_near[of 0 _ 4504687184785744]) simp_all
  show "mul64 (9005024665044021 / 2 ^ 52) (4504687184785744 / 2 ^ 52) = 2 - 1 / 2 ^ 52"
    unfolding mul64_def by (rule round64_near[of 0 _ 9007199254740991]) simp_all
qed simp_all

lemma escape_below_two:
  "mandelbrotIterations (Complex (9005024665044021 / 2 ^ 52) (45 / 2 ^ 10)) 1
   = (0, Complex (9005024665044021 / 2 ^ 52) (45 / 2 ^ 10))"
proof -
  define c :: complex where "c = Complex (9005024665044021 / 2 ^ 52) (45 / 2 ^ 10)"
  have "round64 (9005024665044021 / 2 ^ 52) = 9005024665044021 / 2 ^ 52"
    by (rule round64_exact[of _ 9005024665044021 "- 52"]) simp_all
  moreover have "round64 (45 / 2 ^ 10) = 45 / 2 ^ 10"
    by (rule round64_exact[of _ "45 * 2 ^ 47" "- 57"]) simp_all
  ultimately have first: "complexAdd (complexMul 0 0) c = c"
    unfolding c_def by (intro first_iterate) simp_all
  have m1: "mul64 (9005024665044021 / 2 ^ 52) (9005024665044021 / 2 ^ 52)
            = 9002850600353794 / 2 ^ 51"
    unfolding mul64_def by (rule round64_near[of 1 _ 9002850600353794]) simp_all
  have m2: "mul64 (45 / 2 ^ 10) (45 / 2 ^ 10) = 2025 / 2 ^ 20"
    unfolding mul64_def by (rule round64_near[of "- 10" _ "2025 * 2 ^ 42"]) simp_all
  have a: "add64 (9002850600353794 / 2 ^ 51) (2025 / 2 ^ 20) = 4 + 1 / 2 ^ 50"
    unfolding add64_def by (rule round64_near[of 2 _ "2 ^ 52 + 1"]) simp_all
  have test: "sumSquares c = 4 + 1 / 2 ^ 50"
    by (simp only: sumSquares_def c_def complex.sel m1 m2 a)
  have "mandelbrotIterations c 1 = (0, c)"
    by (simp add: mandelbrotIterations_def mandelbrotLoop.simps[of _ _ 0 0] first test)
  then show ?thesis by (simp only: c_def)
qed

lemma escape_two:
  "mandelbrotIterations (Complex 2 (1 / 2 ^ 25)) 1 = (0, Complex 2 (1 / 2 ^ 25))"
proof -
  define c where "c = Complex 2 (1 / 2 ^ 25)"
  have "round64 (1 / 2 ^ 25) = 1 / 2 ^ 25"
    by (rule round64_exact[of _ "2 ^ 52" "- 77"]) simp_all
  then have first: "complexAdd (complexMul 0 0) c = c"
    unfolding c_def by (intro first_iterate) (simp_all add: round64_2)
  have m1: "mul64 2 2 = 4" by (simp add: mul64_def round64_4)
  have m2: "mul64 (1 / 2 ^ 25) (1 / 2 ^ 25) = 1 / 2 ^ 50"
    unfolding mul64_def by (rule round64_near[of "- 50" _ "2 ^ 52"]) simp_all
  have a: "add64 4 (1 / 2 ^ 50) = 4 + 1 / 2 ^ 50"
    unfolding add64_def by (rule round64_near[of 2 _ "2 ^ 52 + 1"]) simp_all
  have test: "sumSquares c = 4 + 1 / 2 ^ 50"
    by (simp only: sumSquares_def c_def complex.sel m1 m2 a)
  have "mandelbrotIterations c 1 = (0, c)"
    by (simp add: mandelbrotIterations_def mandelbrotLoop.simps[of _ _ 0 0] first test)
  then show ?thesis by (simp only: c_def)
qed

subsection \<open>The claims on the evaluator and the colouring policy\<close>



text \<open>
  C6, as the code has it. For every \<open>c\<close> of two \<open>float64\<close> components and every
  \<open>maxIter \<ge> 1\<close>: if the sum of squares \<open>real(c)*real(c) + imag(c)*imag(c)\<close>, as
  \<open>float64\<close> arithmetic computes it, exceeds 4, the evaluator returns the iteration
  count 0 and the final iterate \<open>z = c\<close>, the escape test following the first update
  \<open>z = z*z + c\<close>. The computed sum exceeds 4 for every \<open>c\<close> with \<open>|c| \<ge> 2 + 2\<^sup>-\<^sup>5\<^sup>1\<close>,
  the \<open>float64\<close> next above 2.
\<close>

theorem escape_at_first_step:
  assumes "round64 (Re c) = Re c" and "round64 (Im c) = Im c" and "1 \<le> maxIter"
  shows "(2 + 1 / 2 ^ 51 \<le> cmod c \<longrightarrow> 4 < sumSquares c)
         \<and> (4 < sumSquares c \<longrightarrow> mandelbrotIterations c maxIter = (0, c))"
proof -
  have "mandelbrotIterations c maxIter = (0, c)" if "4 < sumSquares c"
    using that assms(3)
    by (simp add: mandelbrotIterations_def mandelbrotLoop.simps[of c maxIter 0 0]
          first_iterate[OF assms(1,2)])
  then show ?thesis using sumSquares_margin by blast
qed

text \<open>The theorem at \<open>c = 3\<close>, with 50 iterations allowed.\<close>

theorem escape_at_first_step_witness:
  "round64 (Re (Complex 3 0)) = Re (Complex 3 0) \<and> round64 (Im (Complex 3 0)) = Im (Complex 3 0)
   \<and> (1::int) \<le> 50 \<and> 2 + 1 / 2 ^ 51 \<le> cmod (Complex 3 0) \<and> 4 < sumSquares (Complex 3 0)
   \<and> mandelbrotIterations (Complex 3 0) 50 = (0, Complex 3 0)"
proof -
  have r: "round64 (Re (Complex 3 0)) = Re (Complex 3 0)"
    "round64 (Im (Complex 3 0)) = Im (Complex 3 0)"
    by (simp_all add: round64_3 round64_0)
  have m: "(1::int) \<le> 50" by simp
  have "cmod (Complex 3 0) = 3" by (simp add: cmod_def)
  then have c: "2 + 1 / 2 ^ 51 \<le> cmod (Complex 3 0)" by simp
  from escape_at_first_step [OF r m] r m c show ?thesis by blast
qed

text \<open>
  C6 as stated fails: \<open>c = 2 + 2\<^sup>-\<^sup>3\<^sup>0 i\<close> has \<open>|c| > 2\<close>, but the sum of squares
  \<open>4 + 2\<^sup>-\<^sup>6\<^sup>0\<close> rounds to 4, which is not greater than 4. With one iteration allowed
  the evaluator returns the count 1, the point taken as not escaped; with 50 it
  returns the count 1 after a second update.
\<close>

theorem escape_boundary_counterexample:
  "2 < cmod (Complex 2 (1 / 2 ^ 30))
   \<and> mandelbrotIterations (Complex 2 (1 / 2 ^ 30)) 1 = (1, Complex 2 (1 / 2 ^ 30))
   \<and> mandelbrotIterations (Complex 2 (1 / 2 ^ 30)) 50 = (1, Complex 6 (5 / 2 ^ 30))"
  using cmod_boundary escape_boundary by simp

text \<open>
  C9. With smooth colouring disabled the colouring policy gives exactly
  \<open>t = n / maxIter\<close> for an escaped point (\<open>n < maxIter\<close>) and exactly \<open>t = 0\<close> for a
  bounded point (\<open>n \<ge> maxIter\<close>).
\<close>

theorem discrete_colouring:
  "(n < maxIter \<longrightarrow> colourT n z maxIter False = real_of_int n / real_of_int maxIter)
   \<and> (n \<ge> maxIter \<longrightarrow> colourT n z maxIter False = 0)"
  by (simp add: colourT_def)

theorem discrete_colouring_witness:
  "colourT 3 (Complex 3 0) 50 False = 3 / 50 \<and> colourT 50 0 50 False = 0"
  using discrete_colouring [of 3 50 "Complex 3 0"] discrete_colouring [of 50 50 0] by simp

text \<open>
  C10, as the code has it. The guard \<open>mag <= 0\<close> of the smooth colouring is
  unreachable: the smooth branch runs on a result \<open>(n, z)\<close> of the evaluator with
  \<open>n < maxIter\<close>, for which the sum of squares computed by the escape test exceeds
  4. For such a \<open>z\<close> the magnitude that \<open>math.Hypot\<close> returns is at least
  \<open>2 - 11 * 2\<^sup>-\<^sup>5\<^sup>3\<close>: the magnitude given to the logarithm is greater than 1, and
  \<open>log |z|\<close>, the argument of the outer logarithm, is strictly positive.
\<close>

theorem smooth_guard_unreachable:
  assumes "mandelbrotIterations c maxIter = (n, z)" and "n < maxIter"
  shows "4 < sumSquares z \<and> 2 - 11 / 2 ^ 53 \<le> cmplxAbs z \<and> 1 < cmplxAbs z
         \<and> \<not> cmplxAbs z \<le> 0 \<and> 0 < ln (cmplxAbs z)"
proof -
  note b = cmplxAbs_escaped [OF assms]
  moreover have "(1::real) < 2 - 11 / 2 ^ 53" by simp
  with b have "1 < cmplxAbs z" by linarith
  ultimately show ?thesis by simp
qed

text \<open>The theorem at the result of the evaluator for \<open>c = 3\<close>.\<close>

theorem smooth_guard_unreachable_witness:
  "mandelbrotIterations (Complex 3 0) 1 = (0, Complex 3 0) \<and> (0::int) < 1
   \<and> 4 < sumSquares (Complex 3 0) \<and> cmplxAbs (Complex 3 0) = 3
   \<and> 0 < ln (cmplxAbs (Complex 3 0))"
  using smooth_guard_unreachable [OF escape_3] escape_3 cmplxAbs_3 by simp

text \<open>
  C10 as stated fails: the magnitude given to the logarithm is not always greater
  than 2. The point \<open>z\<close> below is the result of the evaluator for \<open>c = z\<close>, with the
  count 0 (the computed sum of squares is \<open>4 + 2\<^sup>-\<^sup>5\<^sup>0\<close>), and \<open>math.Hypot\<close> returns
  \<open>2 - 2\<^sup>-\<^sup>5\<^sup>2\<close> for it, the \<open>float64\<close> next below 2. For the result \<open>2 + 2\<^sup>-\<^sup>2\<^sup>5 i\<close> of the
  evaluator \<open>math.Hypot\<close> returns 2.
\<close>

theorem magnitude_counterexample:
  "mandelbrotIterations (Complex (9005024665044021 / 2 ^ 52) (45 / 2 ^ 10)) 1
     = (0, Complex (9005024665044021 / 2 ^ 52) (45 / 2 ^ 10))
   \<and> (0::int) < 1
   \<and> cmplxAbs (Complex (9005024665044021 / 2 ^ 52) (45 / 2 ^ 10)) = 2 - 1 / 2 ^ 52
   \<and> \<not> 2 < cmplxAbs (Complex (9005024665044021 / 2 ^ 52) (45 / 2 ^ 10))
   \<and> mandelbrotIterations (Complex 2 (1 / 2 ^ 25)) 1 = (0, Complex 2 (1 / 2 ^ 25))
   \<and> cmplxAbs (Complex 2 (1 / 2 ^ 25)) = 2"
  using escape_below_two Hypot_below_two escape_two Hypot_two by (simp add: cmplxAbs_def)

text \<open>
  On the results of the evaluator the two come together: for an escaped point the
  smooth colouring is the formula without its guard, with the logarithm to base 2.
\<close>

lemma smooth_colouring_of_evaluator:
  assumes "mandelbrotIterations c maxIter = (n, z)" and "n < maxIter"
  shows "colourT n z maxIter True
         = (let nu = real_of_int n + 1 - log 2 (ln (cmplxAbs z))
            in (if nu < 0 then real_of_int n else nu) / real_of_int maxIter)"
proof -
  have "(0::real) < 2 - 11 / 2 ^ 53" by simp
  with cmplxAbs_escaped [OF assms] have "\<not> cmplxAbs z \<le> 0" by linarith
  with assms(2) show ?thesis
    by (simp add: colourT_def Let_def log_def)
qed

section \<open>The palette model: proofs\<close>

subsection \<open>Colours and interpolation\<close>

lemma narrow_widen: "(ucast (drop_bit 8 (widen c)) :: 8 word) = c"
  unfolding widen_def Let_def
  by (rule bit_word_eqI) (auto simp add: bit_simps dest: bit_imp_le_length)

lemma toRGBA_id: "toRGBA c = c"
  by (cases c) (simp add: toRGBA_def Let_def narrow_widen)

lemma Interpolate_single: "Interpolate [s] t = Some (Colour s)"
  by (simp add: Interpolate_def interpolateLoop.simps[of "[s]" t 0] toRGBA_id)

lemma Interpolate_low: "cs \<noteq> [] \<Longrightarrow> t \<le> 0 \<Longrightarrow> Interpolate cs t = Some (Colour (hd cs))"
  by (simp add: Interpolate_def toRGBA_id hd_conv_nth)

lemma Interpolate_high:
  "cs \<noteq> [] \<Longrightarrow> 1 \<le> t \<Longrightarrow> Interpolate cs t = Some (Colour (last cs))"
  by (simp add: Interpolate_def toRGBA_id last_conv_nth)


subsection \<open>sortSlice\<close>

lemma set_insertLeft: "set (insertLeft x ys) = insert x (set ys)"
  by (induction ys) auto

lemma length_insertLeft: "length (insertLeft x ys) = Suc (length ys)"
  by (induction ys) auto

lemma descending_insertLeft:
  "sorted (rev (map Step ys)) \<Longrightarrow> sorted (rev (map Step (insertLeft x ys)))"
proof (induction ys)
  case Nil
  then show ?case by simp
next
  case (Cons y ys)
  then show ?case
    by (auto simp add: sorted_append set_insertLeft)
qed

lemma set_foldl_insertLeft:
  "set (foldl (\<lambda>acc x. insertLeft x acc) acc cs) = set acc \<union> set cs"
  by (induction cs arbitrary: acc) (auto simp add: set_insertLeft)

lemma length_foldl_insertLeft:
  "length (foldl (\<lambda>acc x. insertLeft x acc) acc cs) = length acc + length cs"
  by (induction cs arbitrary: acc) (auto simp add: length_insertLeft)

lemma descending_foldl_insertLeft:
  "sorted (rev (map Step acc)) \<Longrightarrow>
   sorted (rev (map Step (foldl (\<lambda>acc x. insertLeft x acc) acc cs)))"
  by (induction cs arbitrary: acc) (auto simp add: descending_insertLeft)

lemma sorted_sortSlice: "sorted (map Step (sortSlice cs))"
  using descending_foldl_insertLeft [of "[]" cs] by (simp add: sortSlice_def rev_map)

lemma set_sortSlice: "set (sortSlice cs) = set cs"
  by (simp add: sortSlice_def set_foldl_insertLeft)

lemma length_sortSlice: "length (sortSlice cs) = length cs"
  by (simp add: sortSlice_def length_foldl_insertLeft)





subsection \<open>The fill loops\<close>

lemma length_fold_fillStep: "length (fold (fillStep a b) is cs) = length cs"
  by (induction "is" arbitrary: cs) (auto simp add: fillStep_def)

lemma setStep_setStep: "setStep (setStep c v) w = setStep c w"
  by (simp add: setStep_def)

lemma nth_fold_fillStep:
  "j < length cs \<Longrightarrow>
   fold (fillStep a b) is cs ! j
     = (if j \<in> set is then setStep (cs ! j) (fillValue a b j) else cs ! j)"
proof (induction "is" arbitrary: cs)
  case Nil
  then show ?case by simp
next
  case (Cons i "is")
  have len: "j < length (fillStep a b i cs)" using Cons.prems by (simp add: fillStep_def)
  show ?case
    using Cons.IH [OF len] Cons.prems
    by (cases "i = j") (simp_all add: fillStep_def setStep_setStep)
qed

lemma length_fillSpan: "length (fillSpan a b cs) = length cs"
  by (simp add: fillSpan_def length_fold_fillStep)

lemma nth_fillSpan:
  "j < length cs \<Longrightarrow>
   fillSpan a b cs ! j
     = (if fst a \<le> j \<and> j \<le> fst b then setStep (cs ! j) (fillValue a b j) else cs ! j)"
  by (auto simp add: fillSpan_def nth_fold_fillStep)

lemma length_fillBetween: "length (fillBetween fx cs) = length cs"
  by (induction fx cs rule: fillBetween.induct) (auto simp add: length_fillSpan)

lemma nth_fillBetween:
  "j < length cs \<Longrightarrow>
   fillBetween fx cs ! j
     = (case filledValue fx j of None \<Rightarrow> cs ! j | Some v \<Rightarrow> setStep (cs ! j) v)"
proof (induction fx cs rule: fillBetween.induct)
  case (1 a b rest cs)
  have len: "j < length (fillSpan a b cs)" using "1.prems" by (simp add: length_fillSpan)
  show ?case
    using "1.IH" [OF len] "1.prems"
    by (auto simp add: nth_fillSpan setStep_setStep split: option.splits)
qed simp_all

subsection \<open>Values of the fill\<close>

lemma fraction_bounds:
  assumes "ia < j" and "j \<le> ib"
  shows "0 < real (j - ia) / real (ib - ia)" and "real (j - ia) / real (ib - ia) \<le> 1"
  using assms by simp_all

lemma convex_bounds:
  fixes x y f :: real
  assumes "lo \<le> x" "x \<le> hi" "lo \<le> y" "y \<le> hi" "0 \<le> f" "f \<le> 1"
  shows "lo \<le> x + f * (y - x)" and "x + f * (y - x) \<le> hi"
proof -
  have eq: "x + f * (y - x) = (1 - f) * x + f * y" by (simp add: algebra_simps)
  have "(1 - f) * lo \<le> (1 - f) * x" using assms by (intro mult_left_mono) simp_all
  moreover have "f * lo \<le> f * y" using assms by (intro mult_left_mono) simp_all
  moreover have "(1 - f) * lo + f * lo = lo" by (simp add: algebra_simps)
  ultimately show "lo \<le> x + f * (y - x)" unfolding eq by linarith
  have "(1 - f) * x \<le> (1 - f) * hi" using assms by (intro mult_left_mono) simp_all
  moreover have "f * y \<le> f * hi" using assms by (intro mult_left_mono) simp_all
  moreover have "(1 - f) * hi + f * hi = hi" by (simp add: algebra_simps)
  ultimately show "x + f * (y - x) \<le> hi" unfolding eq by linarith
qed

lemma fillValue_bounds:
  assumes "fst a \<le> j" "j \<le> fst b" "lo \<le> snd a" "snd a \<le> hi" "lo \<le> snd b" "snd b \<le> hi"
  shows "lo \<le> fillValue a b j \<and> fillValue a b j \<le> hi"
proof (cases "j = fst a")
  case True
  then show ?thesis using assms by (simp add: fillValue_def)
next
  case False
  with assms have lt: "fst a < j" by simp
  have f: "0 \<le> real (j - fst a) / real (fst b - fst a)" "real (j - fst a) / real (fst b - fst a) \<le> 1"
    using fraction_bounds [OF lt assms(2)] by simp_all
  show ?thesis
    using False convex_bounds [OF assms(3-6) f] by (simp add: fillValue_def)
qed

lemma fillValue_left: "fillValue a b (fst a) = snd a"
  by (simp add: fillValue_def)

lemma fillValue_right: "fst a < fst b \<Longrightarrow> fillValue a b (fst b) = snd b"
  by (simp add: fillValue_def)

subsection \<open>filledValue\<close>

lemma filledValue_below:
  "sorted_wrt (<) (map fst fx) \<Longrightarrow> fx \<noteq> [] \<Longrightarrow> j < fst (hd fx) \<Longrightarrow> filledValue fx j = None"
  by (induction fx j rule: filledValue.induct) auto

lemma filledValue_bounds:
  "sorted_wrt (<) (map fst fx) \<Longrightarrow> \<forall>a \<in> set fx. lo \<le> snd a \<and> snd a \<le> hi \<Longrightarrow>
   filledValue fx j = Some v \<Longrightarrow> lo \<le> v \<and> v \<le> hi"
proof (induction fx j rule: filledValue.induct)
  case (1 a b rest j)
  show ?case
  proof (cases "filledValue (b # rest) j")
    case None
    with "1.prems" have j: "fst a \<le> j" "j \<le> fst b" and v: "v = fillValue a b j"
      by (auto split: if_splits)
    from "1.prems"(2) have "lo \<le> snd a" "snd a \<le> hi" "lo \<le> snd b" "snd b \<le> hi" by auto
    from fillValue_bounds [OF j this] v show ?thesis by simp
  next
    case (Some w)
    with "1.prems" have "filledValue (b # rest) j = Some v" by simp
    with "1.IH" "1.prems" show ?thesis by auto
  qed
qed simp_all

lemma filledValue_covered:
  "sorted_wrt (<) (map fst fx) \<Longrightarrow> 2 \<le> length fx \<Longrightarrow> fst (hd fx) \<le> j \<Longrightarrow>
   j \<le> fst (last fx) \<Longrightarrow> filledValue fx j \<noteq> None"
proof (induction fx j rule: filledValue.induct)
  case (1 a b rest j)
  show ?case
  proof (cases "j \<le> fst b")
    case True
    with "1.prems" show ?thesis by (auto split: option.splits)
  next
    case False
    with "1.prems" have "rest \<noteq> []" by auto
    then have "2 \<le> length (b # rest)" by (cases rest) auto
    with "1.IH" "1.prems" False \<open>rest \<noteq> []\<close> have "filledValue (b # rest) j \<noteq> None" by auto
    then show ?thesis by (auto split: option.splits)
  qed
qed simp_all

lemma filledValue_anchor:
  "sorted_wrt (<) (map fst fx) \<Longrightarrow> 2 \<le> length fx \<Longrightarrow> (j, v) \<in> set fx \<Longrightarrow>
   filledValue fx j = Some v"
proof (induction fx j rule: filledValue.induct)
  case (1 a b rest j)
  from "1.prems"(1) have ab: "fst a < fst b" and srt: "sorted_wrt (<) (map fst (b # rest))"
    by auto
  consider "(j, v) = a" | "(j, v) = b" "rest = []" | "(j, v) \<in> set (b # rest)" "rest \<noteq> []"
    using "1.prems"(3) by (cases "rest = []") auto
  then show ?case
  proof cases
    case 1
    then have j: "j = fst a" and v: "v = snd a" by auto
    have "filledValue (b # rest) j = None"
      using filledValue_below [OF srt] ab j by simp
    then show ?thesis using j v ab by (simp add: fillValue_left)
  next
    case 2
    then have j: "j = fst b" and v: "v = snd b" by auto
    show ?thesis using 2 j v ab by (simp add: fillValue_right)
  next
    case 3
    then have "2 \<le> length (b # rest)" by (cases rest) auto
    from "1.IH" [OF srt this 3(1)] show ?thesis by simp
  qed
qed simp_all

subsection \<open>collectFixed\<close>

lemma set_collectFixed:
  "set (collectFixed k cs)
     = {(k + i, clampStep (Step (cs ! i))) | i. i < length cs \<and> 0 < Step (cs ! i)}"
proof (induction cs arbitrary: k)
  case Nil
  then show ?case by simp
next
  case (Cons c cs)
  have split: "\<And>P. {f i | i. i < Suc (length cs) \<and> P i}
      = (if P 0 then {f 0} else {}) \<union> {f (Suc i) | i. i < length cs \<and> P (Suc i)}" for f :: "nat \<Rightarrow> nat \<times> real"
    by (auto simp add: less_Suc_eq_0_disj)
  show ?case
    by (simp add: Cons.IH split [of "\<lambda>i. (k + i, clampStep (Step ((c # cs) ! i)))"])
qed

lemma collectFixed_increasing: "sorted_wrt (<) (map fst (collectFixed k cs))"
proof (induction cs arbitrary: k)
  case Nil
  then show ?case by simp
next
  case (Cons c cs)
  have "\<forall>a \<in> set (collectFixed (k + 1) cs). k < fst a"
    by (auto simp add: set_collectFixed)
  with Cons.IH [of "k + 1"] show ?case by auto
qed

lemma clampStep_bounds: "0 \<le> clampStep s \<and> clampStep s \<le> 1"
  by (simp add: clampStep_def Let_def)

lemma clampStep_positive: "0 < s \<Longrightarrow> 0 < clampStep s"
  by (simp add: clampStep_def Let_def)


lemma clampStep_mono: "s \<le> t \<Longrightarrow> clampStep s \<le> clampStep t"
  by (simp add: clampStep_def Let_def)

lemma collectFixed_empty: "collectFixed k cs = [] \<longleftrightarrow> (\<forall>c \<in> set cs. \<not> 0 < Step c)"
  by (induction cs arbitrary: k) auto

lemma setStep_cong: "Colour c = Colour d \<Longrightarrow> setStep c v = setStep d v"
  by (simp add: setStep_def)

lemma Step_setStep: "Step (setStep c v) = v"
  by (simp add: setStep_def)

lemma Colour_setStep: "Colour (setStep c v) = Colour c"
  by (simp add: setStep_def)

lemma Colour_update:
  "j < length cs \<Longrightarrow> Colour (cs[i := setStep (cs ! i) v] ! j) = Colour (cs ! j)"
  by (cases "i = j") (simp_all add: Colour_setStep)

lemma increasing_hd_least:
  fixes fx :: "(nat \<times> real) list"
  shows "sorted_wrt (<) (map fst fx) \<Longrightarrow> a \<in> set fx \<Longrightarrow> fst (hd fx) \<le> fst a"
  by (cases fx) auto

lemma increasing_last_greatest:
  fixes fx :: "(nat \<times> real) list"
  shows "sorted_wrt (<) (map fst fx) \<Longrightarrow> a \<in> set fx \<Longrightarrow> fst a \<le> fst (last fx)"
proof (induction fx)
  case Nil
  then show ?case by simp
next
  case (Cons b fx)
  show ?case
  proof (cases "fx = []")
    case True
    with Cons.prems show ?thesis by simp
  next
    case False
    then have "last fx \<in> set fx" by simp
    with Cons.prems have lt: "fst b < fst (last fx)" by auto
    show ?thesis
    proof (cases "a = b")
      case True
      with lt False show ?thesis by simp
    next
      case neq: False
      with Cons.prems have "a \<in> set fx" "sorted_wrt (<) (map fst fx)" by auto
      with Cons.IH False show ?thesis by simp
    qed
  qed
qed

lemma Normalize_fill_path:
  assumes unspec: "\<exists>c \<in> set cs. Step c = 0" and anchored: "\<exists>c \<in> set cs. 0 < Step c"
  obtains fx f where
    "Normalize cs = Some (sortSlice f)"
    "length f = length cs"
    "sorted_wrt (<) (map fst fx)" "2 \<le> length fx"
    "fst (hd fx) = 0" "fst (last fx) = length cs - 1"
    "0 \<le> snd (hd fx)" "\<forall>a \<in> set (tl fx). 0 < snd a" "\<forall>a \<in> set fx. snd a \<le> 1"
    "Step (hd cs) \<le> 0 \<longrightarrow> snd (hd fx) = 0"
    "Step (last cs) \<le> 0 \<longrightarrow> snd (last fx) = 1"
    "\<forall>j < length cs. \<exists>v. filledValue fx j = Some v \<and> f ! j = setStep (cs ! j) v"
    "\<forall>j < length cs. 0 < Step (cs ! j) \<longrightarrow> (j, clampStep (Step (cs ! j))) \<in> set fx"
proof -
  define n where "n = length cs"
  from unspec anchored obtain c d where cd: "c \<in> set cs" "d \<in> set cs" "Step c = 0" "0 < Step d"
    by auto
  then have "c \<noteq> d" by auto
  with cd have "card {c, d} \<le> card (set cs)" by (intro card_mono) auto
  with \<open>c \<noteq> d\<close> have "2 \<le> card (set cs)" by simp
  then have n2: "2 \<le> n" using card_length [of cs] by (simp add: n_def)
  then have ne: "cs \<noteq> []" by (auto simp add: n_def)
  define fixed where "fixed = collectFixed 0 cs"
  have fixed_ne: "fixed \<noteq> []" using anchored by (simp add: fixed_def collectFixed_empty)
  have fixed_inc: "sorted_wrt (<) (map fst fixed)" by (simp add: fixed_def collectFixed_increasing)
  have fixed_set: "set fixed = {(i, clampStep (Step (cs ! i))) | i. i < n \<and> 0 < Step (cs ! i)}"
    using set_collectFixed [of 0 cs] by (simp add: fixed_def n_def)
  have fixed_el: "fst a < n \<and> 0 < snd a \<and> snd a \<le> 1 \<and> 0 < Step (cs ! fst a)" if "a \<in> set fixed" for a
    using that clampStep_bounds clampStep_positive by (auto simp add: fixed_set)
  define f1 where "f1 = (if fst (hd fixed) \<noteq> 0 then (0, 0) # fixed else fixed)"
  define cs1 where "cs1 = (if fst (hd fixed) \<noteq> 0 then cs[0 := setStep (cs ! 0) 0] else cs)"
  have first: "fixFirst fixed cs = (f1, cs1)"
    using fixed_ne by (simp add: fixFirst_def f1_def cs1_def hd_conv_nth)
  have f1_ne: "f1 \<noteq> []" using fixed_ne by (simp add: f1_def)
  have f1_inc: "sorted_wrt (<) (map fst f1)"
  proof (cases "fst (hd fixed) \<noteq> 0")
    case True
    then have "0 < fst a" if "a \<in> set fixed" for a
      using increasing_hd_least [OF fixed_inc that] by simp
    with fixed_inc True show ?thesis by (auto simp add: f1_def)
  next
    case False
    with fixed_inc show ?thesis by (simp add: f1_def)
  qed
  have f1_hd: "fst (hd f1) = 0" by (simp add: f1_def)
  have f1_el: "fst a < n \<and> 0 \<le> snd a \<and> snd a \<le> 1" if "a \<in> set f1" for a
    using that fixed_el n2 by (fastforce simp add: f1_def split: if_splits)
  have f1_tl: "0 < snd a" if "a \<in> set (tl f1)" for a
    using that fixed_el list.set_sel(2) [OF fixed_ne] by (auto simp add: f1_def split: if_splits)
  have f1_sub: "set f1 \<subseteq> insert (0, 0) (set fixed)" by (auto simp add: f1_def)
  define f2 where "f2 = (if fst (last f1) \<noteq> n - 1 then f1 @ [(n - 1, 1)] else f1)"
  define cs2 where "cs2 = (if fst (last f1) \<noteq> n - 1 then cs1[n - 1 := setStep (cs1 ! (n - 1)) 1] else cs1)"
  have last: "fixLast n f1 cs1 = (f2, cs2)"
    using f1_ne by (simp add: fixLast_def f2_def cs2_def last_conv_nth)
  have f2_inc: "sorted_wrt (<) (map fst f2)"
  proof (cases "fst (last f1) \<noteq> n - 1")
    case True
    have "fst (last f1) < n" using f1_el [of "last f1"] f1_ne by simp
    with True have "fst (last f1) < n - 1" by simp
    then have "fst a < n - 1" if "a \<in> set f1" for a
      using increasing_last_greatest [OF f1_inc that] by simp
    with f1_inc True show ?thesis by (auto simp add: f2_def sorted_wrt_append)
  next
    case False
    with f1_inc show ?thesis by (simp add: f2_def)
  qed
  have f2_hd: "hd f2 = hd f1" using f1_ne by (simp add: f2_def)
  have f2_last: "fst (last f2) = n - 1" by (simp add: f2_def)
  have f2_el: "0 \<le> snd a \<and> snd a \<le> 1" if "a \<in> set f2" for a
    using that f1_el [of a] by (auto simp add: f2_def split: if_splits)
  have f2_tl: "0 < snd a" if "a \<in> set (tl f2)" for a
    using that f1_tl [of a] f1_ne by (auto simp add: f2_def split: if_splits)
  have f2_ne: "f2 \<noteq> []" using f1_ne by (simp add: f2_def)
  have f2_len: "2 \<le> length f2"
  proof -
    have "fst (hd f2) \<noteq> fst (last f2)" using f2_hd f1_hd f2_last n2 by simp
    then have "hd f2 \<noteq> last f2" by auto
    with f2_ne show ?thesis by (cases f2) (auto simp add: Suc_le_eq)
  qed
  have len2: "length cs2 = n" by (simp add: cs2_def cs1_def n_def)
  have col2: "Colour (cs2 ! j) = Colour (cs ! j)" if "j < n" for j
  proof -
    have "Colour (cs1 ! j) = Colour (cs ! j)"
      using that by (simp add: cs1_def n_def Colour_update)
    moreover have "Colour (cs2 ! j) = Colour (cs1 ! j)"
      using that by (simp add: cs2_def cs1_def n_def Colour_update)
    ultimately show ?thesis by simp
  qed
  define f where "f = fillBetween f2 cs2"
  have norm: "Normalize cs = Some (sortSlice f)"
  proof -
    have "\<not> list_all (\<lambda>c. Step c \<noteq> 0) cs" using unspec by (auto simp add: list_all_iff)
    with ne n2 fixed_ne first last show ?thesis
      by (simp add: Normalize_def Let_def fixed_def [symmetric] n_def [symmetric] f_def)
  qed
  have first0: "snd (hd f2) = 0" if "Step (hd cs) \<le> 0"
  proof -
    have "fst a \<noteq> 0" if "a \<in> set fixed" for a
    proof
      assume "fst a = 0"
      with fixed_el [OF that] have "0 < Step (cs ! 0)" by simp
      with \<open>Step (hd cs) \<le> 0\<close> ne show False by (simp add: hd_conv_nth)
    qed
    then have "fst (hd fixed) \<noteq> 0" using fixed_ne by simp
    then show ?thesis by (simp add: f2_hd f1_def)
  qed
  have last1: "snd (last f2) = 1" if "Step (last cs) \<le> 0"
  proof -
    have nofix: "fst a \<noteq> n - 1" if "a \<in> set fixed" for a
    proof
      assume "fst a = n - 1"
      with fixed_el [OF that] have "0 < Step (cs ! (n - 1))" by simp
      with \<open>Step (last cs) \<le> 0\<close> ne show False by (simp add: last_conv_nth n_def)
    qed
    have "last f1 \<in> insert (0, 0) (set fixed)"
      using f1_sub last_in_set [OF f1_ne] by blast
    then have "fst (last f1) \<noteq> n - 1"
    proof
      assume "last f1 = (0, 0)"
      with n2 show ?thesis by simp
    next
      assume "last f1 \<in> set fixed"
      then show ?thesis by (rule nofix)
    qed
    then show ?thesis by (simp add: f2_def)
  qed
  have filled: "\<exists>v. filledValue f2 j = Some v \<and> f ! j = setStep (cs ! j) v" if "j < length cs" for j
  proof -
    from that have j: "j < n" by (simp add: n_def)
    have "filledValue f2 j \<noteq> None"
      using filledValue_covered [OF f2_inc f2_len, of j] f2_hd f1_hd f2_last j by simp
    then obtain v where v: "filledValue f2 j = Some v" by auto
    have "f ! j = setStep (cs2 ! j) v"
      using nth_fillBetween [of j cs2 f2] j len2 v by (simp add: f_def)
    with v col2 [OF j] setStep_cong show ?thesis by metis
  qed
  have kept: "(j, clampStep (Step (cs ! j))) \<in> set f2" if "j < length cs" "0 < Step (cs ! j)" for j
  proof -
    from that have "(j, clampStep (Step (cs ! j))) \<in> set fixed" by (auto simp add: fixed_set n_def)
    then show ?thesis by (auto simp add: f2_def f1_def)
  qed
  show thesis
  proof (rule that [of f f2])
    show "\<forall>j < length cs. 0 < Step (cs ! j) \<longrightarrow> (j, clampStep (Step (cs ! j))) \<in> set f2"
      using kept by blast
    show "Normalize cs = Some (sortSlice f)" by (rule norm)
    show "length f = length cs" by (simp add: f_def length_fillBetween len2 n_def)
    show "sorted_wrt (<) (map fst f2)" by (rule f2_inc)
    show "2 \<le> length f2" by (rule f2_len)
    show "fst (hd f2) = 0" by (simp add: f2_hd f1_hd)
    show "fst (last f2) = length cs - 1" by (simp add: f2_last n_def)
    show "0 \<le> snd (hd f2)" using f2_el [of "hd f2"] f2_ne by simp
    show "\<forall>a \<in> set (tl f2). 0 < snd a" using f2_tl by blast
    show "\<forall>a \<in> set f2. snd a \<le> 1" using f2_el by blast
    show "Step (hd cs) \<le> 0 \<longrightarrow> snd (hd f2) = 0" using first0 by blast
    show "Step (last cs) \<le> 0 \<longrightarrow> snd (last f2) = 1" using last1 by blast
    show "\<forall>j < length cs. \<exists>v. filledValue f2 j = Some v \<and> f ! j = setStep (cs ! j) v"
      using filled by blast
  qed
qed

lemma sorted_map_clampStep: "sorted xs \<Longrightarrow> sorted (map clampStep xs)"
  by (induction xs) (auto simp add: clampStep_mono)

lemma sorted_hd_least:
  "sorted (map Step r) \<Longrightarrow> x \<in> set r \<Longrightarrow> Step (hd r) \<le> Step x"
  by (cases r) auto

lemma sorted_last_greatest:
  "sorted (map Step r) \<Longrightarrow> x \<in> set r \<Longrightarrow> Step x \<le> Step (last r)"
  by (induction r) (auto split: if_splits)

lemma Normalize_all_specified:
  "cs \<noteq> [] \<Longrightarrow> \<forall>c \<in> set cs. Step c \<noteq> 0 \<Longrightarrow>
   Normalize cs = Some (map (\<lambda>c. setStep c (clampStep (Step c))) (sortSlice cs))"
  by (simp add: Normalize_def list_all_iff)

lemma Normalize_no_anchor:
  "2 \<le> length cs \<Longrightarrow> \<exists>c \<in> set cs. Step c = 0 \<Longrightarrow> \<forall>c \<in> set cs. \<not> 0 < Step c \<Longrightarrow>
   Normalize cs = Some (evenly cs)"
proof -
  assume a: "2 \<le> length cs" "\<exists>c \<in> set cs. Step c = 0" "\<forall>c \<in> set cs. \<not> 0 < Step c"
  from a(3) have "collectFixed 0 cs = []" by (simp add: collectFixed_empty)
  moreover from a(2) have "\<not> list_all (\<lambda>c. Step c \<noteq> 0) cs" by (simp add: list_all_iff)
  moreover from a(1) have "cs \<noteq> []" "length cs \<noteq> 1" by auto
  ultimately show ?thesis by (simp add: Normalize_def Let_def evenly_def)
qed

lemma length_evenly: "length (evenly cs) = length cs"
  by (simp add: evenly_def)

lemma nth_evenly:
  "j < length cs \<Longrightarrow> evenly cs ! j = setStep (cs ! j) (real j / real (length cs - 1))"
  by (simp add: evenly_def)

lemma Step_evenly: "map Step (evenly cs) = map (\<lambda>i. real i / real (length cs - 1)) [0 ..< length cs]"
  by (rule nth_equalityI) (simp_all add: length_evenly nth_evenly Step_setStep)

lemma sorted_evenly: "sorted (map Step (evenly cs))"
proof -
  define d where "d = real (length cs - 1)"
  have "0 \<le> d" by (simp add: d_def)
  then have "real i / d \<le> real j / d" if "i \<le> j" for i j
    using that by (simp add: divide_right_mono)
  then have "sorted (map (\<lambda>i. real i / d) [0 ..< length cs])"
    by (simp add: sorted_iff_nth_mono)
  then show ?thesis by (simp only: Step_evenly d_def)
qed

lemma evenly_bounds:
  assumes "c \<in> set (evenly cs)"
  shows "0 \<le> Step c \<and> Step c \<le> 1"
proof -
  from assms obtain j where j: "j < length cs" "c = evenly cs ! j"
    by (auto simp add: in_set_conv_nth length_evenly)
  then have "Step c = real j / real (length cs - 1)" by (simp add: nth_evenly Step_setStep)
  moreover have "real j \<le> real (length cs - 1)" using j by simp
  ultimately show ?thesis by (cases "length cs - 1 = 0") simp_all
qed

lemma evenly_empty: "evenly cs = [] \<longleftrightarrow> cs = []"
  using length_evenly [of cs] by (metis length_0_conv)

lemma hd_evenly: "cs \<noteq> [] \<Longrightarrow> Step (hd (evenly cs)) = 0"
  using nth_evenly [of 0 cs] by (simp add: hd_conv_nth evenly_empty Step_setStep)

lemma last_evenly: "2 \<le> length cs \<Longrightarrow> Step (last (evenly cs)) = 1"
proof -
  assume len: "2 \<le> length cs"
  then have ne: "cs \<noteq> []" by auto
  from len have "evenly cs ! (length cs - 1) = setStep (cs ! (length cs - 1)) (real (length cs - 1) / real (length cs - 1))"
    by (intro nth_evenly) simp
  moreover from len have "real (length cs - 1) / real (length cs - 1) = 1" by simp
  ultimately show ?thesis using ne by (simp add: last_conv_nth evenly_empty length_evenly Step_setStep)
qed

lemma single_unspecified:
  assumes "length cs = 1" "\<exists>c \<in> set cs. Step c = 0"
  shows "Step (hd cs) = 0"
  using assms by (cases cs) auto





lemmas eval_Normalize =
  Normalize_def stop_def sortSlice_def clampStep_def setStep_def evenly_def
  fixFirst_def fixLast_def fillSpan_def fillStep_def fillValue_def Let_def upt_rec

subsection \<open>The claims on \<open>Normalize\<close> and \<open>Interpolate\<close>\<close>

text \<open>
  C2, as the code has it. \<open>Normalize\<close> returns a stop list for every map but the single
  stop with \<open>Step\<close> 0. The stop positions of the result are sorted ascending and lie
  in \<open>[0, 1]\<close>. Where at least one input position was unspecified (equal to 0), the
  first resulting position is 0 if the first input stop's position was not positive
  (so if it was unspecified), and the last resulting position is 1 if the last input
  stop's position was not positive.
\<close>

theorem normalize_invariant:
  assumes "\<not> (length cs = 1 \<and> Step (hd cs) = 0)"
  shows "\<exists>r. Normalize cs = Some r
           \<and> sorted (map Step r) \<and> (\<forall>c \<in> set r. 0 \<le> Step c \<and> Step c \<le> 1)
           \<and> ((\<exists>c \<in> set cs. Step c = 0) \<longrightarrow>
                (Step (hd cs) \<le> 0 \<longrightarrow> Step (hd r) = 0)
                \<and> (Step (last cs) \<le> 0 \<longrightarrow> Step (last r) = 1))"
proof -
  consider "cs = []" | "cs \<noteq> []" "\<forall>c \<in> set cs. Step c \<noteq> 0"
    | "\<exists>c \<in> set cs. Step c = 0" "\<forall>c \<in> set cs. \<not> 0 < Step c"
    | "\<exists>c \<in> set cs. Step c = 0" "\<exists>c \<in> set cs. 0 < Step c"
    by auto
  then show ?thesis
  proof cases
    case 1
    then show ?thesis by (simp add: Normalize_def)
  next
    case 2
    let ?r = "map (\<lambda>c. setStep c (clampStep (Step c))) (sortSlice cs)"
    have steps: "map Step ?r = map clampStep (map Step (sortSlice cs))"
      by (simp add: Step_setStep comp_def)
    have "sorted (map Step ?r)"
      unfolding steps by (rule sorted_map_clampStep) (rule sorted_sortSlice)
    moreover have "\<forall>c \<in> set ?r. 0 \<le> Step c \<and> Step c \<le> 1"
      using clampStep_bounds by (auto simp add: Step_setStep)
    ultimately show ?thesis using 2 Normalize_all_specified [OF 2] by auto
  next
    case 3
    then have "cs \<noteq> []" by auto
    with assms single_unspecified [OF _ 3(1)] have len: "2 \<le> length cs"
      by (cases cs) (auto simp add: Suc_le_eq)
    from Normalize_no_anchor [OF len 3] sorted_evenly evenly_bounds hd_evenly [OF \<open>cs \<noteq> []\<close>]
      last_evenly [OF len]
    show ?thesis by auto
  next
    case 4
    from Normalize_fill_path [OF 4] obtain fx f where p:
      "Normalize cs = Some (sortSlice f)"
      "length f = length cs"
      "sorted_wrt (<) (map fst fx)" "2 \<le> length fx"
      "fst (hd fx) = 0" "fst (last fx) = length cs - 1"
      "0 \<le> snd (hd fx)" "\<forall>a \<in> set (tl fx). 0 < snd a" "\<forall>a \<in> set fx. snd a \<le> 1"
      "Step (hd cs) \<le> 0 \<longrightarrow> snd (hd fx) = 0"
      "Step (last cs) \<le> 0 \<longrightarrow> snd (last fx) = 1"
      "\<forall>j < length cs. \<exists>v. filledValue fx j = Some v \<and> f ! j = setStep (cs ! j) v"
      by metis
    from 4 have ne: "cs \<noteq> []" by auto
    from p(4) have fx_ne: "fx \<noteq> []" by auto
    have anchors: "0 \<le> snd a \<and> snd a \<le> 1" if "a \<in> set fx" for a
    proof (cases "a = hd fx")
      case True
      with p(7,9) that show ?thesis by simp
    next
      case False
      with that fx_ne have "a \<in> set (tl fx)" by (cases fx) auto
      with p(8,9) that show ?thesis by fastforce
    qed
    then have anchors': "\<forall>a \<in> set fx. 0 \<le> snd a \<and> snd a \<le> 1" by blast
    have range: "0 \<le> Step c \<and> Step c \<le> 1" if "c \<in> set f" for c
    proof -
      from that p(2) obtain j where j: "j < length cs" "c = f ! j"
        by (auto simp add: in_set_conv_nth)
      with p(12) obtain v where v: "filledValue fx j = Some v" "c = setStep (cs ! j) v" by auto
      from filledValue_bounds [OF p(3) anchors' v(1)] v(2) show ?thesis by (simp add: Step_setStep)
    qed
    let ?r = "sortSlice f"
    have r_ne: "?r \<noteq> []" using ne p(2) length_sortSlice [of f] by auto
    have f_ne: "f \<noteq> []" using ne p(2) by auto
    have first: "Step (hd ?r) = 0" if "Step (hd cs) \<le> 0"
    proof -
      from that p(10) have "snd (hd fx) = 0" by simp
      with p(5) have "hd fx = (0, 0)" by (simp add: prod_eq_iff)
      with fx_ne have "(0, 0) \<in> set fx" by (metis hd_in_set)
      then have fv: "filledValue fx 0 = Some 0" by (rule filledValue_anchor [OF p(3,4)])
      have "0 < length cs" using ne by simp
      with p(12) obtain v where "filledValue fx 0 = Some v" "f ! 0 = setStep (cs ! 0) v" by blast
      with fv have "Step (f ! 0) = 0" by (simp add: Step_setStep)
      moreover have "f ! 0 \<in> set ?r" using f_ne by (simp add: set_sortSlice)
      ultimately have "Step (hd ?r) \<le> 0"
        using sorted_hd_least [OF sorted_sortSlice, of "f ! 0" f] by simp
      moreover have "0 \<le> Step (hd ?r)"
        using range [of "hd ?r"] r_ne hd_in_set [OF r_ne] by (simp add: set_sortSlice)
      ultimately show ?thesis by simp
    qed
    have final: "Step (last ?r) = 1" if "Step (last cs) \<le> 0"
    proof -
      from that p(11) have "snd (last fx) = 1" by simp
      with p(6) have "last fx = (length cs - 1, 1)" by (simp add: prod_eq_iff)
      with fx_ne have "(length cs - 1, 1) \<in> set fx" by (metis last_in_set)
      then have fv: "filledValue fx (length cs - 1) = Some 1" by (rule filledValue_anchor [OF p(3,4)])
      have "length cs - 1 < length cs" using ne by simp
      with p(12) obtain v where "filledValue fx (length cs - 1) = Some v"
        "f ! (length cs - 1) = setStep (cs ! (length cs - 1)) v" by blast
      with fv have "Step (f ! (length cs - 1)) = 1" by (simp add: Step_setStep)
      moreover have "f ! (length cs - 1) \<in> set ?r" using ne p(2) by (simp add: set_sortSlice)
      ultimately have "1 \<le> Step (last ?r)"
        using sorted_last_greatest [OF sorted_sortSlice, of "f ! (length cs - 1)" f] by simp
      moreover have "Step (last ?r) \<le> 1"
        using range [of "last ?r"] last_in_set [OF r_ne] by (simp add: set_sortSlice)
      ultimately show ?thesis by simp
    qed
    have "\<forall>c \<in> set ?r. 0 \<le> Step c \<and> Step c \<le> 1" using range by (simp add: set_sortSlice)
    with p(1) sorted_sortSlice [of f] first final show ?thesis by blast
  qed
qed

text \<open>The theorem at a three-stop map whose first and last positions are unspecified.\<close>

theorem normalize_invariant_witness:
  "\<not> (length [stop 0 black, stop (1 / 2) grey, stop 0 white] = 1
       \<and> Step (hd [stop 0 black, stop (1 / 2) grey, stop 0 white]) = 0)
   \<and> Normalize [stop 0 black, stop (1 / 2) grey, stop 0 white]
       = Some [stop 0 black, stop (1 / 2) grey, stop 1 white]
   \<and> sorted (map Step [stop 0 black, stop (1 / 2) grey, stop 1 white])
   \<and> Step (hd [stop 0 black, stop (1 / 2) grey, stop 1 white]) = 0
   \<and> Step (last [stop 0 black, stop (1 / 2) grey, stop 1 white]) = 1"
  using normalize_invariant [of "[stop 0 black, stop (1 / 2) grey, stop 0 white]"]
  by (simp add: eval_Normalize)

text \<open>
  C2 as stated fails: the second stop of this map is unspecified, and the first
  resulting position is \<open>1/2\<close>, the position given for the first stop, not 0.
\<close>

theorem first_position_counterexample:
  "Step (stop 0 white) = 0
   \<and> Normalize [stop (1 / 2) black, stop 0 white] = Some [stop (1 / 2) black, stop 1 white]
   \<and> Step (hd [stop (1 / 2) black, stop 1 white]) \<noteq> 0"
  by (simp add: eval_Normalize)




lemma Normalize_single: "Step s \<noteq> 0 \<Longrightarrow> Normalize [s] = Some [setStep s (clampStep (Step s))]"
  by (simp add: Normalize_def sortSlice_def)

text \<open>
  C8, as the code has it. For a map of exactly one stop whose position is specified
  (not 0), \<open>Normalize\<close> gives a single stop of the same colour whose position is the
  given one clamped to \<open>[0, 1]\<close>, and \<open>Interpolate\<close> on the result returns that stop's
  colour for every \<open>t\<close>.
\<close>

theorem single_stop:
  assumes "Step s \<noteq> 0"
  shows "Normalize [s] = Some [setStep s (clampStep (Step s))]
         \<and> Step (setStep s (clampStep (Step s))) = clampStep (Step s)
         \<and> Colour (setStep s (clampStep (Step s))) = Colour s
         \<and> (\<forall>t. Interpolate [setStep s (clampStep (Step s))] t = Some (Colour s))"
  using assms by (simp add: Normalize_single Interpolate_single setStep_def)

text \<open>The theorem at the single stop of position 2.\<close>

theorem single_stop_witness:
  "Step (stop 2 grey) \<noteq> 0 \<and> Normalize [stop 2 grey] = Some [stop 1 grey]
   \<and> Interpolate [stop 1 grey] (1 / 3) = Some grey"
  using single_stop [of "stop 2 grey"]
  by (simp add: stop_def setStep_def clampStep_def)

text \<open>
  C8 as stated fails: the single stop given at position \<open>1/2\<close> stays at \<open>1/2\<close>, not 0.
\<close>

theorem single_stop_counterexample:
  "Normalize [stop (1 / 2) grey] = Some [stop (1 / 2) grey] \<and> Step (stop (1 / 2) grey) \<noteq> 0"
  by (simp add: eval_Normalize)

text \<open>
  C3 says that \<open>Interpolate\<close> on a normalized map returns the first stop's colour
  whenever \<open>t\<close> is at or below the lowest stop position (and the last stop's colour
  whenever \<open>t\<close> is at or above the highest), as the doc comment of \<open>Interpolate\<close>
  does. The code does not: on the map of the two stops \<open>(1/2, black)\<close>,
  \<open>(1, white)\<close>, which \<open>Normalize\<close> leaves as it is, and at \<open>t = 1/4\<close>, below the
  lowest stop position, \<open>Interpolate\<close> tests \<open>t <= 0\<close>, not \<open>t <= first Step\<close>, finds no
  interval and falls through to the last stop's colour, white, where the first stop's
  colour is black.
\<close>

theorem interpolate_below_first_stop:
  "Normalize [stop (1 / 2) black, stop 1 white] = Some [stop (1 / 2) black, stop 1 white]
   \<and> (1 / 4 :: real) \<le> Step (hd [stop (1 / 2) black, stop 1 white])
   \<and> Interpolate [stop (1 / 2) black, stop 1 white] (1 / 4) = Some white
   \<and> white \<noteq> Colour (hd [stop (1 / 2) black, stop 1 white])"
  by (simp add: eval_Normalize Interpolate_def interpolateLoop.simps toRGBA_id black_def white_def)

section \<open>The worker pool: proofs\<close>

subsection \<open>The written pixels under the steps of the pool\<close>

lemma list_ex_nth: "list_ex P ws = (\<exists>j < length ws. P (ws ! j))"
  by (auto simp add: list_ex_iff set_conv_nth)

lemma list_ex_update:
  "i < length ws \<Longrightarrow>
   list_ex P (ws[i := w]) = (P w \<or> (\<exists>j < length ws. j \<noteq> i \<and> P (ws ! j)))"
  by (auto simp add: list_ex_iff set_conv_nth nth_list_update)

lemma list_ex_update_other:
  assumes "i < length ws" "\<not> P (ws ! i)"
  shows "list_ex P (ws[i := w]) = (P w \<or> list_ex P ws)"
proof -
  have "list_ex P (ws[i := w]) = (P w \<or> (\<exists>j < length ws. j \<noteq> i \<and> P (ws ! j)))"
    by (rule list_ex_update [OF assms(1)])
  also have "\<dots> = (P w \<or> (\<exists>j < length ws. P (ws ! j)))"
    using assms(2) by metis
  also have "\<dots> = (P w \<or> list_ex P ws)"
    by (simp only: list_ex_nth)
  finally show ?thesis .
qed

lemma onRow_simps [simp]:
  "onRow Waiting y x = False"
  "onRow Returned y x = False"
  "onRow (Computing y' x') y x = (y' = y \<and> x' \<le> x)"
  by (simp_all add: onRow_def)

lemma rowOf_simps [simp]:
  "rowOf Waiting = None"
  "rowOf Returned = None"
  "rowOf (Computing y x) = Some y"
  by (simp_all add: rowOf_def)

lemma onRow_update_other:
  "i < length ws \<Longrightarrow> \<not> onRow (ws ! i) y x \<Longrightarrow>
   list_ex (\<lambda>w. onRow w y x) (ws[i := w]) = (onRow w y x \<or> list_ex (\<lambda>w. onRow w y x) ws)"
  by (rule list_ex_update_other)

lemma onRow_update:
  "i < length ws \<Longrightarrow>
   list_ex (\<lambda>w. onRow w y x) (ws[i := w])
     = (onRow w y x \<or> (\<exists>j < length ws. j \<noteq> i \<and> onRow (ws ! j) y x))"
  by (rule list_ex_update)

lemma onRow_rowOf: "onRow w y x \<Longrightarrow> rowOf w = Some y"
  by (cases w) simp_all

lemma pixelWritten_send:
  assumes "invRows s"
  shows "pixelWritten p (s\<lparr>nextRow := nextRow s + 1, rows := rows s @ [nextRow s]\<rparr>) xy
         = pixelWritten p s xy"
proof -
  from assms have "\<forall>y \<in> set (rows s). y < nextRow s" by (simp add: invRows_def)
  then show ?thesis by (cases xy) (auto simp add: pixelWritten_def)
qed

lemma pixelWritten_close: "pixelWritten p (s\<lparr>closed := b\<rparr>) xy = pixelWritten p s xy"
  by (simp add: pixelWritten_def)

lemma pixelWritten_idle:
  assumes "i < length (workers s)" "rowOf (workers s ! i) = None" "rowOf w = None"
  shows "pixelWritten p (s\<lparr>workers := (workers s)[i := w]\<rparr>) xy = pixelWritten p s xy"
proof -
  have "list_ex (\<lambda>w. onRow w y x) ((workers s)[i := w]) = list_ex (\<lambda>w. onRow w y x) (workers s)"
    for x y
  proof -
    have a: "\<not> onRow w y x" using assms(3) onRow_rowOf by fastforce
    have b: "\<not> onRow (workers s ! i) y x" using assms(2) onRow_rowOf by fastforce
    show ?thesis using a by (simp add: onRow_update_other [OF assms(1) b])
  qed
  then show ?thesis by (cases xy) (simp add: pixelWritten_def)
qed

lemma pixelWritten_take:
  assumes "i < length (workers s)" "workers s ! i = Waiting" "rows s = y # q" "distinct (rows s)"
  shows "pixelWritten p (s\<lparr>rows := q, workers := (workers s)[i := Computing y 0]\<rparr>) xy
         = pixelWritten p s xy"
proof -
  obtain x0 y0 where xy: "xy = (x0, y0)" by (cases xy)
  have b: "\<not> onRow (workers s ! i) y0 x0" using assms(2) by simp
  show ?thesis
    using assms(3,4)
    by (auto simp add: xy pixelWritten_def onRow_update_other [OF assms(1) b])
qed

lemma pixelWritten_pixel:
  assumes i: "i < length (workers s)" and w: "workers s ! i = Computing y x" and x: "x < width p"
    and inv: "invWorkers s" "invOneWorker s"
  shows "pixelWritten p (s\<lparr>workers := (workers s)[i := Computing y (x + 1)], img := im,
                            written := wr\<rparr>) xy
         = (pixelWritten p s xy \<or> xy = (x, y))"
proof -
  obtain x0 y0 where xy: "xy = (x0, y0)" by (cases xy)
  from inv(1) i w have yx: "0 \<le> y" "y < nextRow s" "y \<notin> set (rows s)" "0 \<le> x"
    unfolding invWorkers_def by blast+
  have only: "\<not> onRow (workers s ! j) y x1" if "j < length (workers s)" "j \<noteq> i" for j x1
  proof
    assume "onRow (workers s ! j) y x1"
    then have "rowOf (workers s ! j) = Some y" by (rule onRow_rowOf)
    with inv(2) i that(1) w have "i = j" unfolding invOneWorker_def by simp
    with that(2) show False by simp
  qed
  show ?thesis
  proof (cases "y0 = y")
    case True
    have "list_ex (\<lambda>w. onRow w y x0) (workers s) = (x \<le> x0)"
      unfolding list_ex_nth using only i w by (metis onRow_simps(3))
    moreover have "list_ex (\<lambda>w. onRow w y x0) ((workers s)[i := Computing y (x + 1)]) = (x + 1 \<le> x0)"
      unfolding onRow_update [OF i] using only by auto
    ultimately show ?thesis using True yx x by (auto simp add: xy pixelWritten_def)
  next
    case False
    have "list_ex (\<lambda>w. onRow w y0 x0) ((workers s)[i := Computing y (x + 1)])
        = list_ex (\<lambda>w. onRow w y0 x0) (workers s)"
      using False w by (simp add: onRow_update_other [OF i])
    then show ?thesis using False by (simp add: xy pixelWritten_def)
  qed
qed

lemma pixelWritten_rowDone:
  assumes i: "i < length (workers s)" and w: "workers s ! i = Computing y x" and x: "\<not> x < width p"
  shows "pixelWritten p (s\<lparr>workers := (workers s)[i := Waiting]\<rparr>) xy = pixelWritten p s xy"
proof -
  obtain x0 y0 where xy: "xy = (x0, y0)" by (cases xy)
  show ?thesis
  proof (cases "x0 < width p")
    case True
    with x have "\<not> onRow (workers s ! i) y0 x0" by (simp add: w)
    then show ?thesis by (simp add: xy pixelWritten_def onRow_update_other [OF i])
  next
    case False
    then show ?thesis by (simp add: xy pixelWritten_def)
  qed
qed

subsection \<open>The invariant\<close>

lemma poolInv_start:
  assumes "startPool k p = Some s"
  shows "poolInv p s"
proof -
  from assms have h: "0 \<le> height p"
    and s: "s = \<lparr>nextRow = 0, closed = False, rows = [], workers = replicate (nat k) Waiting,
                 img = NewRGBA (width p) (height p), written = []\<rparr>"
    by (auto simp add: startPool_def split: if_splits)
  have nw: "\<not> pixelWritten p s xy" for xy
    by (cases xy) (simp add: s pixelWritten_def)
  have "invMain p s" using h by (simp add: s invMain_def)
  moreover have "invRows s" by (simp add: s invRows_def)
  moreover have "invWorkers s" by (simp add: s invWorkers_def)
  moreover have "invOneWorker s" by (simp add: s invOneWorker_def)
  moreover have "invReturned s" by (simp add: s invReturned_def)
  moreover have "invRect p s" by (simp add: s invRect_def)
  moreover have "invPix p s" unfolding invPix_def using nw by (simp add: s NewRGBA_def)
  moreover have "invWritten p s" unfolding invWritten_def using nw by (simp add: s)
  ultimately show ?thesis by (simp add: poolInv_def)
qed

lemma poolInv_mainStep:
  assumes "poolInv p s"
  shows "poolInv p (mainStep p s)"
proof -
  from assms have inv: "invMain p s" "invRows s" "invWorkers s" "invOneWorker s" "invReturned s"
    "invRect p s" "invPix p s" "invWritten p s"
    by (simp_all add: poolInv_def)
  consider (send) "nextRow s < height p" | (close) "\<not> nextRow s < height p" "\<not> closed s"
    | (wait) "\<not> nextRow s < height p" "closed s"
    by blast
  then show ?thesis
  proof cases
    case send
    let ?s = "s\<lparr>nextRow := nextRow s + 1, rows := rows s @ [nextRow s]\<rparr>"
    have step: "mainStep p s = ?s" using send by (simp add: mainStep_def)
    from inv(1) send have nc: "\<not> closed s" by (auto simp add: invMain_def)
    have "invMain p ?s" using inv(1) send nc by (simp add: invMain_def)
    moreover have "invRows ?s"
    proof -
      from inv(2) have "\<forall>y \<in> set (rows s). 0 \<le> y \<and> y < nextRow s" "distinct (rows s)"
        by (simp_all add: invRows_def)
      moreover from inv(1) have "0 \<le> nextRow s" by (simp add: invMain_def)
      ultimately show ?thesis by (auto simp add: invRows_def)
    qed
    moreover have "invWorkers ?s" using inv(3) unfolding invWorkers_def by fastforce
    moreover have "invOneWorker ?s" using inv(4) by (simp add: invOneWorker_def)
    moreover have "invReturned ?s" using inv(5) nc by (auto simp add: invReturned_def)
    moreover have "invRect p ?s" using inv(6) by (simp add: invRect_def)
    moreover have "invPix p ?s"
      using inv(7) unfolding invPix_def by (simp add: pixelWritten_send [OF inv(2)])
    moreover have "invWritten p ?s"
      using inv(8) unfolding invWritten_def by (simp add: pixelWritten_send [OF inv(2)])
    ultimately show ?thesis by (simp add: poolInv_def step)
  next
    case close
    let ?s = "s\<lparr>closed := True\<rparr>"
    have step: "mainStep p s = ?s" using close by (simp add: mainStep_def)
    have "invMain p ?s" using inv(1) close by (simp add: invMain_def)
    moreover have "invRows ?s" using inv(2) by (simp add: invRows_def)
    moreover have "invWorkers ?s" using inv(3) by (simp add: invWorkers_def)
    moreover have "invOneWorker ?s" using inv(4) by (simp add: invOneWorker_def)
    moreover have "invReturned ?s" using inv(5) by (simp add: invReturned_def)
    moreover have "invRect p ?s" using inv(6) by (simp add: invRect_def)
    moreover have "invPix p ?s" using inv(7) by (simp add: invPix_def pixelWritten_close)
    moreover have "invWritten p ?s" using inv(8) by (simp add: invWritten_def pixelWritten_close)
    ultimately show ?thesis by (simp add: poolInv_def step)
  next
    case wait
    then have "mainStep p s = s" by (simp add: mainStep_def)
    with assms show ?thesis by simp
  qed
qed

lemma poolInv_take:
  assumes inv: "poolInv p s" and i: "i < length (workers s)" and w: "workers s ! i = Waiting"
    and r: "rows s = y # q"
  shows "poolInv p (s\<lparr>rows := q, workers := (workers s)[i := Computing y 0]\<rparr>)"
    (is "poolInv p ?s")
proof -
  from inv have inv: "invMain p s" "invRows s" "invWorkers s" "invOneWorker s" "invReturned s"
    "invRect p s" "invPix p s" "invWritten p s"
    by (simp_all add: poolInv_def)
  from inv(2) r have y: "0 \<le> y" "y < nextRow s" "y \<notin> set q" "distinct q" and d: "distinct (rows s)"
    and q: "\<forall>z \<in> set q. 0 \<le> z \<and> z < nextRow s"
    by (auto simp add: invRows_def)
  from inv(5) r have nr: "Returned \<notin> set (workers s)" by (auto simp add: invReturned_def)
  have pw: "pixelWritten p ?s xy = pixelWritten p s xy" for xy
    by (rule pixelWritten_take [OF i w r d])
  have "invMain p ?s" using inv(1) by (simp add: invMain_def)
  moreover have "invRows ?s" using y q by (simp add: invRows_def)
  moreover have "invWorkers ?s"
    unfolding invWorkers_def
  proof (intro allI impI)
    fix j y' x'
    assume j: "j < length (workers ?s)" and c: "workers ?s ! j = Computing y' x'"
    show "0 \<le> y' \<and> y' < nextRow ?s \<and> y' \<notin> set (rows ?s) \<and> 0 \<le> x'"
    proof (cases "j = i")
      case True
      with c i have "y' = y" "x' = 0" by simp_all
      with y show ?thesis by simp
    next
      case False
      with c j have "workers s ! j = Computing y' x'" "j < length (workers s)" by simp_all
      with inv(3) have "0 \<le> y' \<and> y' < nextRow s \<and> y' \<notin> set (rows s) \<and> 0 \<le> x'"
        unfolding invWorkers_def by blast
      then show ?thesis using r by simp
    qed
  qed
  moreover have "invOneWorker ?s"
    unfolding invOneWorker_def
  proof (intro allI impI)
    fix j k
    assume j: "j < length (workers ?s)" and k: "k < length (workers ?s)"
      and some: "rowOf (workers ?s ! j) \<noteq> None"
      and same: "rowOf (workers ?s ! j) = rowOf (workers ?s ! k)"
    have notq: "rowOf (workers s ! m) \<noteq> Some y" if "m < length (workers s)" for m
    proof
      assume "rowOf (workers s ! m) = Some y"
      then obtain x' where "workers s ! m = Computing y x'"
        by (cases "workers s ! m") simp_all
      with inv(3) that have "y \<notin> set (rows s)" unfolding invWorkers_def by blast
      with r show False by simp
    qed
    show "j = k"
    proof (cases "j = i \<or> k = i")
      case True
      show ?thesis
      proof (rule ccontr)
        assume "j \<noteq> k"
        with True have "(j = i \<and> k \<noteq> i) \<or> (k = i \<and> j \<noteq> i)" by auto
        then show False
        proof
          assume "j = i \<and> k \<noteq> i"
          with same i k have "rowOf (workers s ! k) = Some y" by simp
          with notq k show False by simp
        next
          assume "k = i \<and> j \<noteq> i"
          with same i j have "rowOf (workers s ! j) = Some y" by simp
          with notq j show False by simp
        qed
      qed
    next
      case False
      with j k some same inv(4) show ?thesis unfolding invOneWorker_def by simp
    qed
  qed
  moreover have "invReturned ?s"
  proof -
    have "set ((workers s)[i := Computing y 0]) \<subseteq> insert (Computing y 0) (set (workers s))"
      by (rule set_update_subset_insert)
    with nr have "Returned \<notin> set (workers ?s)" by auto
    then show ?thesis by (simp add: invReturned_def)
  qed
  moreover have "invRect p ?s" using inv(6) by (simp add: invRect_def)
  moreover have "invPix p ?s" using inv(7) unfolding invPix_def by (simp add: pw)
  moreover have "invWritten p ?s" using inv(8) unfolding invWritten_def by (simp add: pw)
  ultimately show ?thesis by (simp add: poolInv_def)
qed

lemma poolInv_idle:
  assumes inv: "poolInv p s" and i: "i < length (workers s)"
    and pw: "\<And>xy. pixelWritten p (s\<lparr>workers := (workers s)[i := w]\<rparr>) xy = pixelWritten p s xy"
    and w: "rowOf w = None" and ret: "w = Returned \<longrightarrow> rows s = [] \<and> closed s"
  shows "poolInv p (s\<lparr>workers := (workers s)[i := w]\<rparr>)"
    (is "poolInv p ?s")
proof -
  from inv have inv: "invMain p s" "invRows s" "invWorkers s" "invOneWorker s" "invReturned s"
    "invRect p s" "invPix p s" "invWritten p s"
    by (simp_all add: poolInv_def)
  have "invMain p ?s" using inv(1) by (simp add: invMain_def)
  moreover have "invRows ?s" using inv(2) by (simp add: invRows_def)
  moreover have "invWorkers ?s"
    unfolding invWorkers_def
  proof (intro allI impI)
    fix j y' x'
    assume j: "j < length (workers ?s)" and c: "workers ?s ! j = Computing y' x'"
    with w i have "j \<noteq> i" by auto
    with c j have "workers s ! j = Computing y' x'" "j < length (workers s)" by simp_all
    with inv(3) have "0 \<le> y' \<and> y' < nextRow s \<and> y' \<notin> set (rows s) \<and> 0 \<le> x'"
      unfolding invWorkers_def by blast
    then show "0 \<le> y' \<and> y' < nextRow ?s \<and> y' \<notin> set (rows ?s) \<and> 0 \<le> x'" by simp
  qed
  moreover have "invOneWorker ?s"
    unfolding invOneWorker_def
  proof (intro allI impI)
    fix j k
    assume j: "j < length (workers ?s)" and k: "k < length (workers ?s)"
      and some: "rowOf (workers ?s ! j) \<noteq> None"
      and same: "rowOf (workers ?s ! j) = rowOf (workers ?s ! k)"
    from some w i have "j \<noteq> i" by auto
    moreover from some same w i have "k \<noteq> i" by auto
    ultimately show "j = k"
      using j k some same inv(4) unfolding invOneWorker_def by simp
  qed
  moreover have "invReturned ?s"
  proof -
    have "set ((workers s)[i := w]) \<subseteq> insert w (set (workers s))"
      by (rule set_update_subset_insert)
    with inv(5) ret show ?thesis by (auto simp add: invReturned_def)
  qed
  moreover have "invRect p ?s" using inv(6) by (simp add: invRect_def)
  moreover have "invPix p ?s" using inv(7) unfolding invPix_def by (simp add: pw)
  moreover have "invWritten p ?s" using inv(8) unfolding invWritten_def by (simp add: pw)
  ultimately show ?thesis by (simp add: poolInv_def)
qed

lemma poolInv_pixel:
  assumes inv: "poolInv p s" and i: "i < length (workers s)" and w: "workers s ! i = Computing y x"
    and x: "x < width p"
  shows "poolInv p (s\<lparr>workers := (workers s)[i := Computing y (x + 1)],
                     img := SetRGBA (img s) x y (pixelColour p x y),
                     written := written s @ [(x, y)]\<rparr>)"
    (is "poolInv p ?s")
proof -
  from inv have inv: "invMain p s" "invRows s" "invWorkers s" "invOneWorker s" "invReturned s"
    "invRect p s" "invPix p s" "invWritten p s"
    by (simp_all add: poolInv_def)
  from inv(3) i w have yx: "0 \<le> y" "y < nextRow s" "y \<notin> set (rows s)" "0 \<le> x"
    unfolding invWorkers_def by blast+
  from inv(1) yx have yh: "y < height p" by (simp add: invMain_def)
  have pw: "pixelWritten p (s\<lparr>workers := (workers s)[i := Computing y (x + 1)], img := im,
                                  written := wr\<rparr>) xy
            = (pixelWritten p s xy \<or> xy = (x, y))" for xy im wr
    by (rule pixelWritten_pixel [OF i w x inv(3,4)])
  have inside: "minX (img s) \<le> x \<and> x < maxX (img s) \<and> minY (img s) \<le> y \<and> y < maxY (img s)"
    using inv(6) yx x yh by (simp add: invRect_def NewRGBA_def)
  then have set: "SetRGBA (img s) x y c = (img s)\<lparr>Pix := (Pix (img s))((x, y) := c)\<rparr>" for c
    by (simp add: SetRGBA_def)
  have "invMain p ?s" using inv(1) by (simp add: invMain_def)
  moreover have "invRows ?s" using inv(2) by (simp add: invRows_def)
  moreover have "invWorkers ?s"
    unfolding invWorkers_def
  proof (intro allI impI)
    fix j y' x'
    assume j: "j < length (workers ?s)" and c: "workers ?s ! j = Computing y' x'"
    show "0 \<le> y' \<and> y' < nextRow ?s \<and> y' \<notin> set (rows ?s) \<and> 0 \<le> x'"
    proof (cases "j = i")
      case True
      with c i have "y' = y" "x' = x + 1" by simp_all
      with yx show ?thesis by simp
    next
      case False
      with c j have "workers s ! j = Computing y' x'" "j < length (workers s)" by simp_all
      with inv(3) have "0 \<le> y' \<and> y' < nextRow s \<and> y' \<notin> set (rows s) \<and> 0 \<le> x'"
        unfolding invWorkers_def by blast
      then show ?thesis by simp
    qed
  qed
  moreover have "invOneWorker ?s"
  proof -
    have "rowOf (workers ?s ! j) = rowOf (workers s ! j)" if "j < length (workers s)" for j
      using that w i by (cases "j = i") simp_all
    with inv(4) show ?thesis unfolding invOneWorker_def by simp
  qed
  moreover have "invReturned ?s"
  proof -
    have "set ((workers s)[i := Computing y (x + 1)]) \<subseteq> insert (Computing y (x + 1)) (set (workers s))"
      by (rule set_update_subset_insert)
    with inv(5) show ?thesis by (auto simp add: invReturned_def)
  qed
  moreover have "invRect p ?s" using inv(6) by (simp add: invRect_def set)
  moreover have "invPix p ?s"
    unfolding invPix_def
  proof
    fix xy
    from inv(7) have old: "Pix (img s) xy
        = (if pixelWritten p s xy then pixelColour p (fst xy) (snd xy) else Some (RGBA 0 0 0 0))"
      unfolding invPix_def by blast
    show "Pix (img ?s) xy
        = (if pixelWritten p ?s xy then pixelColour p (fst xy) (snd xy) else Some (RGBA 0 0 0 0))"
      using old by (cases "xy = (x, y)") (simp_all add: pw set)
  qed
  moreover have "invWritten p ?s"
    unfolding invWritten_def
  proof
    fix xy
    from inv(8) have "(xy \<in> set (written s)) = pixelWritten p s xy"
      unfolding invWritten_def by blast
    then show "(xy \<in> set (written ?s)) = pixelWritten p ?s xy"
      by (auto simp add: pw)
  qed
  ultimately show ?thesis by (simp add: poolInv_def)
qed

lemma poolInv_workerStep:
  assumes "poolInv p s"
  shows "poolInv p (workerStep p i s)"
proof (cases "i < length (workers s)")
  case False
  with assms show ?thesis by (simp add: workerStep_def)
next
  case i: True
  show ?thesis
  proof (cases "workers s ! i")
    case Waiting
    show ?thesis
    proof (cases "rows s")
      case Nil
      show ?thesis
      proof (cases "closed s")
        case True
        have "poolInv p (s\<lparr>workers := (workers s)[i := Returned]\<rparr>)"
          using Nil True Waiting
          by (intro poolInv_idle [OF assms i] pixelWritten_idle [OF i]) simp_all
        with i Waiting Nil True show ?thesis by (simp add: workerStep_def)
      next
        case False
        with i Waiting Nil assms show ?thesis by (simp add: workerStep_def)
      qed
    next
      case (Cons y q)
      from poolInv_take [OF assms i Waiting Cons] i Waiting Cons show ?thesis
        by (simp add: workerStep_def)
    qed
  next
    case (Computing y x)
    show ?thesis
    proof (cases "x < width p")
      case True
      from poolInv_pixel [OF assms i Computing True] i Computing True show ?thesis
        by (simp add: workerStep_def)
    next
      case False
      have "poolInv p (s\<lparr>workers := (workers s)[i := Waiting]\<rparr>)"
        by (intro poolInv_idle [OF assms i] pixelWritten_rowDone [OF i Computing False]) simp_all
      with i Computing False show ?thesis by (simp add: workerStep_def)
    qed
  next
    case Returned
    with i assms show ?thesis by (simp add: workerStep_def)
  qed
qed

lemma poolInv_step: "poolInv p s \<Longrightarrow> poolInv p (step p g s)"
  by (cases g) (simp_all add: poolInv_mainStep poolInv_workerStep)

lemma poolInv_fold: "poolInv p s \<Longrightarrow> poolInv p (fold (step p) sched s)"
  by (induction sched arbitrary: s) (simp_all add: poolInv_step)

subsection \<open>The image of a completed render\<close>

lemma length_workers_step: "length (workers (step p g s)) = length (workers s)"
  by (cases g)
     (auto simp add: mainStep_def workerStep_def split: Worker.splits list.splits)

lemma length_workers_fold: "length (workers (fold (step p) sched s)) = length (workers s)"
  by (induction sched arbitrary: s) (simp_all add: length_workers_step)

lemma render_Rendered:
  assumes "render k p sched = Rendered s"
  obtains s0 where "startPool k p = Some s0" "s = fold (step p) sched s0" "finished s"
  using assms by (auto simp add: render_def Let_def split: option.splits if_splits)

lemma render_poolInv:
  assumes "render k p sched = Rendered s"
  shows "poolInv p s \<and> length (workers s) = nat k \<and> finished s"
proof -
  from assms obtain s0 where s0: "startPool k p = Some s0" "s = fold (step p) sched s0" "finished s"
    by (rule render_Rendered)
  from s0(1) have "length (workers s0) = nat k" by (auto simp add: startPool_def split: if_splits)
  with s0 poolInv_fold [OF poolInv_start [OF s0(1)]] show ?thesis
    by (simp add: length_workers_fold)
qed

lemma Image_eqI:
  fixes a b :: Image
  assumes "minX a = minX b" "minY a = minY b" "maxX a = maxX b" "maxY a = maxY b"
    "\<And>xy. Pix a xy = Pix b xy"
  shows "a = b"
  using assms by (intro Image.equality ext) simp_all

lemma finished_pixelWritten:
  assumes inv: "poolInv p s" and fin: "finished s" and k: "workers s \<noteq> []"
  shows "pixelWritten p s xy
         = (0 \<le> fst xy \<and> fst xy < width p \<and> 0 \<le> snd xy \<and> snd xy < height p)"
proof -
  from fin have cl: "closed s" and all: "\<forall>w \<in> set (workers s). w = Returned"
    by (simp_all add: finished_def list_all_iff)
  from k all have "Returned \<in> set (workers s)" by (cases "workers s") auto
  with inv have r: "rows s = []" by (simp add: poolInv_def invReturned_def)
  from inv cl have n: "nextRow s = height p" by (simp add: poolInv_def invMain_def)
  have "\<not> list_ex (\<lambda>w. onRow w y x) (workers s)" for x y
    using all by (auto simp add: list_ex_iff)
  with r n show ?thesis by (cases xy) (simp add: pixelWritten_def)
qed

lemma render_image:
  assumes "1 \<le> k" and "render k p sched = Rendered s"
  shows "img s = fullImage p"
proof -
  from render_poolInv [OF assms(2)] assms(1)
  have inv: "poolInv p s" and fin: "finished s" and k: "workers s \<noteq> []" by auto
  note pw = finished_pixelWritten [OF inv fin k]
  from inv have rect: "invRect p s" and pix: "invPix p s" by (simp_all add: poolInv_def)
  show ?thesis
  proof (rule Image_eqI)
    fix xy
    from pix have "Pix (img s) xy
        = (if pixelWritten p s xy then pixelColour p (fst xy) (snd xy) else Some (RGBA 0 0 0 0))"
      unfolding invPix_def by blast
    then show "Pix (img s) xy = Pix (fullImage p) xy" by (simp add: pw fullImage_def)
  qed (use rect in \<open>simp_all add: invRect_def fullImage_def\<close>)
qed

text \<open>The completed image is the one of the render without concurrency.\<close>

lemma computeRowFrom_bounds:
  "minX (computeRowFrom p y x im) = minX im \<and> minY (computeRowFrom p y x im) = minY im
   \<and> maxX (computeRowFrom p y x im) = maxX im \<and> maxY (computeRowFrom p y x im) = maxY im"
proof (induction p y x im rule: computeRowFrom.induct)
  case (1 p y x im)
  show ?case
  proof (cases "x < width p")
    case True
    with "1.IH" show ?thesis
      by (simp add: computeRowFrom.simps [of p y x im] SetRGBA_def)
  next
    case False
    then show ?thesis by (simp add: computeRowFrom.simps [of p y x im])
  qed
qed

lemma computeRowFrom_Pix:
  "Pix (computeRowFrom p y x im) xy
     = (if snd xy = y \<and> x \<le> fst xy \<and> fst xy < width p
           \<and> minX im \<le> fst xy \<and> fst xy < maxX im \<and> minY im \<le> y \<and> y < maxY im
        then pixelColour p (fst xy) y else Pix im xy)"
proof (induction p y x im rule: computeRowFrom.induct)
  case (1 p y x im)
  show ?case
  proof (cases "x < width p")
    case True
    have "Pix (computeRowFrom p y x im) xy
        = Pix (computeRowFrom p y (x + 1) (SetRGBA im x y (pixelColour p x y))) xy"
      using True by (simp add: computeRowFrom.simps [of p y x im])
    also have "\<dots> = (if snd xy = y \<and> x + 1 \<le> fst xy \<and> fst xy < width p
           \<and> minX (SetRGBA im x y (pixelColour p x y)) \<le> fst xy
           \<and> fst xy < maxX (SetRGBA im x y (pixelColour p x y))
           \<and> minY (SetRGBA im x y (pixelColour p x y)) \<le> y
           \<and> y < maxY (SetRGBA im x y (pixelColour p x y))
        then pixelColour p (fst xy) y else Pix (SetRGBA im x y (pixelColour p x y)) xy)"
      by (rule "1.IH" [OF True])
    also have "\<dots> = (if snd xy = y \<and> x \<le> fst xy \<and> fst xy < width p
           \<and> minX im \<le> fst xy \<and> fst xy < maxX im \<and> minY im \<le> y \<and> y < maxY im
        then pixelColour p (fst xy) y else Pix im xy)"
      using True by (cases xy) (auto simp add: SetRGBA_def)
    finally show ?thesis .
  next
    case False
    then show ?thesis by (auto simp add: computeRowFrom.simps [of p y x im])
  qed
qed

lemma inside_NewRGBA:
  assumes "0 \<le> x" "x < w" "0 \<le> y" "y < h"
  shows "minX (NewRGBA w h) \<le> x \<and> x < maxX (NewRGBA w h)
         \<and> minY (NewRGBA w h) \<le> y \<and> y < maxY (NewRGBA w h)"
  using assms by (simp add: NewRGBA_def)

lemma renderRows_upto:
  assumes "int m \<le> height p"
  shows "fold (computeRow p) (map int [0 ..< m]) (NewRGBA (width p) (height p))
         = (NewRGBA (width p) (height p))
             \<lparr>Pix := (\<lambda>xy. if 0 \<le> fst xy \<and> fst xy < width p \<and> 0 \<le> snd xy \<and> snd xy < int m
                           then pixelColour p (fst xy) (snd xy) else Some (RGBA 0 0 0 0))\<rparr>"
  using assms
proof (induction m)
  case 0
  have "(\<lambda>xy. if 0 \<le> fst xy \<and> fst xy < width p \<and> 0 \<le> snd xy \<and> snd xy < int 0
              then pixelColour p (fst xy) (snd xy) else Some (RGBA 0 0 0 0))
      = (\<lambda>_. Some (RGBA 0 0 0 0))"
    by (rule ext) auto
  then show ?case by (simp add: NewRGBA_def)
next
  case (Suc m)
  define N where "N = NewRGBA (width p) (height p)"
  define F where "F = (\<lambda>k xy. if 0 \<le> fst xy \<and> fst xy < width p \<and> 0 \<le> snd xy \<and> snd xy < int k
                         then pixelColour p (fst xy) (snd xy) else Some (RGBA 0 0 0 0))"
  let ?im = "fold (computeRow p) (map int [0 ..< m]) N"
  from Suc have IH: "?im = N\<lparr>Pix := F m\<rparr>" by (simp add: N_def F_def)
  from Suc.prems have h: "int m < height p" by simp
  have step: "fold (computeRow p) (map int [0 ..< Suc m]) N = computeRowFrom p (int m) 0 ?im"
    by (simp add: computeRow_def)
  have "computeRowFrom p (int m) 0 ?im = N\<lparr>Pix := F (Suc m)\<rparr>"
  proof (rule Image_eqI)
    fix xy :: "int \<times> int"
    obtain a b where xy: "xy = (a, b)" by (cases xy)
    show "Pix (computeRowFrom p (int m) 0 ?im) xy = Pix (N\<lparr>Pix := F (Suc m)\<rparr>) xy"
    proof (cases "b = int m \<and> 0 \<le> a \<and> a < width p")
      case True
      with h inside_NewRGBA [of a "width p" "int m" "height p"]
      have "minX N \<le> a \<and> a < maxX N \<and> minY N \<le> int m \<and> int m < maxY N"
        by (simp add: N_def)
      with True show ?thesis by (simp add: computeRowFrom_Pix IH xy F_def)
    next
      case False
      then have "Pix (computeRowFrom p (int m) 0 ?im) xy = Pix ?im xy"
        by (auto simp add: computeRowFrom_Pix xy)
      also have "\<dots> = F m xy" by (simp add: IH)
      also have "\<dots> = F (Suc m) xy" using False by (auto simp add: F_def xy)
      finally show ?thesis by simp
    qed
  qed (simp_all add: computeRowFrom_bounds IH)
  with step show ?case by (simp add: N_def F_def)
qed

lemma renderRows_fullImage: "renderRows p = fullImage p"
proof (cases "0 \<le> height p")
  case True
  then have "int (nat (height p)) \<le> height p" by simp
  from renderRows_upto [OF this] True show ?thesis
    by (simp add: renderRows_def fullImage_def)
next
  case False
  then have "fullImage p = NewRGBA (width p) (height p)"
    by (intro Image_eqI) (auto simp add: fullImage_def NewRGBA_def)
  with False show ?thesis by (simp add: renderRows_def)
qed

text \<open>Every pool runs to completion under some schedule.\<close>

lemma sum_list_workerSteps_update:
  assumes "i < length ws"
  shows "sum_list (map (workerSteps p) (ws[i := w])) + workerSteps p (ws ! i)
         = sum_list (map (workerSteps p) ws) + workerSteps p w"
  using assms
proof (induction ws arbitrary: i)
  case Nil
  then show ?case by simp
next
  case (Cons a ws)
  show ?case
  proof (cases i)
    case 0
    then show ?thesis by simp
  next
    case (Suc j)
    with Cons.prems have "j < length ws" by simp
    from Cons.IH [OF this] Suc show ?thesis by simp
  qed
qed

lemma progress:
  assumes "\<not> finished s"
  shows "\<exists>g. stepsLeft p (step p g s) < stepsLeft p s"
proof (cases "nextRow s < height p")
  case True
  then have "nat (height p - (nextRow s + 1)) + 1 = nat (height p - nextRow s)" by simp
  then have "nat (height p - (nextRow s + 1)) * (nat (width p) + 4) + (nat (width p) + 4)
      = nat (height p - nextRow s) * (nat (width p) + 4)"
    by (metis add_mult_distrib mult_1)
  with True have "stepsLeft p (step p MainRoutine s) < stepsLeft p s"
    by (simp add: stepsLeft_def mainStep_def)
  then show ?thesis ..
next
  case sent: False
  show ?thesis
  proof (cases "closed s")
    case False
    with sent have "stepsLeft p (step p MainRoutine s) < stepsLeft p s"
      by (simp add: stepsLeft_def mainStep_def)
    then show ?thesis ..
  next
    case True
    with assms obtain i where i: "i < length (workers s)" "workers s ! i \<noteq> Returned"
      by (auto simp add: finished_def list_all_iff set_conv_nth)
    let ?ws = "workers s"
    have upd: "sum_list (map (workerSteps p) (?ws[i := w])) + workerSteps p (?ws ! i)
         = sum_list (map (workerSteps p) ?ws) + workerSteps p w" for w
      by (rule sum_list_workerSteps_update [OF i(1)])
    have "stepsLeft p (step p (WorkerRoutine i) s) < stepsLeft p s"
    proof (cases "?ws ! i")
      case Waiting
      show ?thesis
      proof (cases "rows s")
        case Nil
        with i True Waiting upd [of Returned] show ?thesis
          by (simp add: stepsLeft_def workerStep_def workerSteps_def)
      next
        case (Cons y q)
        with i Waiting upd [of "Computing y 0"] show ?thesis
          by (simp add: stepsLeft_def workerStep_def workerSteps_def)
      qed
    next
      case (Computing y x)
      show ?thesis
      proof (cases "x < width p")
        case lt: True
        then have "nat (width p - (x + 1)) + 1 = nat (width p - x)" by simp
        with lt i Computing upd [of "Computing y (x + 1)"] show ?thesis
          by (simp add: stepsLeft_def workerStep_def workerSteps_def)
      next
        case False
        with i Computing upd [of Waiting] show ?thesis
          by (simp add: stepsLeft_def workerStep_def workerSteps_def)
      qed
    next
      case Returned
      with i show ?thesis by simp
    qed
    then show ?thesis ..
  qed
qed

lemma completes: "\<exists>sched. finished (fold (step p) sched s)"
proof (induction "stepsLeft p s" arbitrary: s rule: less_induct)
  case less
  show ?case
  proof (cases "finished s")
    case True
    then have "finished (fold (step p) [] s)" by simp
    then show ?thesis ..
  next
    case False
    from progress [OF this] obtain g where "stepsLeft p (step p g s) < stepsLeft p s" ..
    from less [OF this] obtain sched where "finished (fold (step p) sched (step p g s))" ..
    then have "finished (fold (step p) (g # sched) s)" by simp
    then show ?thesis ..
  qed
qed

lemma render_completes:
  assumes "0 \<le> height p"
  shows "\<exists>sched s. render k p sched = Rendered s"
proof -
  from assms obtain s0 where s0: "startPool k p = Some s0" by (simp add: startPool_def)
  from completes obtain sched where "finished (fold (step p) sched s0)" ..
  with s0 have "render k p sched = Rendered (fold (step p) sched s0)"
    by (simp add: render_def)
  then show ?thesis by blast
qed

subsection \<open>Renders that compute nothing, and renders without iterations\<close>

lemma no_workers_step:
  assumes "workers s = []"
  shows "workers (step p g s) = [] \<and> img (step p g s) = img s \<and> written (step p g s) = written s"
  using assms by (cases g) (simp_all add: mainStep_def workerStep_def)

lemma no_workers_fold:
  assumes "workers s = []"
  shows "img (fold (step p) sched s) = img s \<and> written (fold (step p) sched s) = written s"
  using assms
proof (induction sched arbitrary: s)
  case Nil
  then show ?case by simp
next
  case (Cons g sched)
  from no_workers_step [OF Cons.prems, of p g] Cons.IH [of "step p g s"] show ?case by simp
qed

lemma nothing_written:
  assumes inv: "poolInv p s" and none: "\<And>xy. \<not> pixelWritten p s xy"
  shows "written s = [] \<and> img s = NewRGBA (width p) (height p)"
proof
  from inv have "invWritten p s" by (simp add: poolInv_def)
  then have "(xy \<in> set (written s)) = pixelWritten p s xy" for xy
    unfolding invWritten_def by (rule spec)
  then have "xy \<notin> set (written s)" for xy
    by (simp add: none)
  then show "written s = []" by (cases "written s") auto
  from inv have rect: "invRect p s" and pix: "invPix p s" by (simp_all add: poolInv_def)
  have blank: "Pix (img s) xy = Some (RGBA 0 0 0 0)" for xy
  proof -
    from pix have "Pix (img s) xy
        = (if pixelWritten p s xy then pixelColour p (fst xy) (snd xy) else Some (RGBA 0 0 0 0))"
      unfolding invPix_def by (rule spec)
    then show ?thesis by (simp add: none)
  qed
  show "img s = NewRGBA (width p) (height p)"
  proof (rule Image_eqI)
    fix xy
    show "Pix (img s) xy = Pix (NewRGBA (width p) (height p)) xy"
      by (simp add: blank NewRGBA_def)
  qed (use rect in \<open>simp_all add: invRect_def\<close>)
qed

lemma no_pixel_computed:
  assumes start: "startPool k p = Some s0" and bad: "k \<le> 0 \<or> width p \<le> 0 \<or> height p \<le> 0"
  shows "written (fold (step p) sched s0) = []
         \<and> img (fold (step p) sched s0) = NewRGBA (width p) (height p)"
proof (cases "k \<le> 0")
  case True
  with start have "workers s0 = []" "img s0 = NewRGBA (width p) (height p)" "written s0 = []"
    by (auto simp add: startPool_def split: if_splits)
  with no_workers_fold [of s0 p sched] show ?thesis by simp
next
  case False
  with bad have wh: "width p \<le> 0 \<or> height p \<le> 0" by simp
  let ?s = "fold (step p) sched s0"
  have inv: "poolInv p ?s" by (rule poolInv_fold [OF poolInv_start [OF start]])
  then have "nextRow ?s \<le> height p" by (simp add: poolInv_def invMain_def)
  with wh have "\<not> pixelWritten p ?s xy" for xy
    by (cases xy) (auto simp add: pixelWritten_def)
  then show ?thesis by (rule nothing_written [OF inv])
qed

lemma mandelbrotIterations_no_budget:
  "maxIter \<le> 0 \<Longrightarrow> mandelbrotIterations c maxIter = (maxIter, 0)"
  by (simp add: mandelbrotIterations_def mandelbrotLoop.simps [of c maxIter 0 0])

lemma pixelColour_no_budget: "iters p \<le> 0 \<Longrightarrow> pixelColour p x y = Interpolate (Colors (cmap p)) 0"
  by (simp add: pixelColour_def Let_def mandelbrotIterations_no_budget colourT_def)

lemma all_pixels_computed:
  assumes k: "1 \<le> k" and r: "render k p sched = Rendered s"
    and xy: "0 \<le> x" "x < width p" "0 \<le> y" "y < height p"
  shows "(x, y) \<in> set (written s) \<and> Pix (img s) (x, y) = pixelColour p x y"
proof -
  from render_poolInv [OF r] k
  have inv: "poolInv p s" and fin: "finished s" and ws: "workers s \<noteq> []" by auto
  from finished_pixelWritten [OF inv fin ws, of "(x, y)"] xy have "pixelWritten p s (x, y)" by simp
  moreover from inv have "invWritten p s" by (simp add: poolInv_def)
  ultimately have "(x, y) \<in> set (written s)" unfolding invWritten_def by blast
  moreover have "Pix (img s) (x, y) = pixelColour p x y"
    using render_image [OF k r] xy by (simp add: fullImage_def)
  ultimately show ?thesis by simp
qed

subsection \<open>The example renders\<close>

lemmas eval_pool =
  render_def startPool_def finished_def mainStep_def workerStep_def SetRGBA_def NewRGBA_def
  computeRow_def computeRowFrom.simps eval_nat_numeral

lemma demo_render1: "render 1 demoParams demoSchedule1 = Rendered demoPool1"
  by (simp add: demoParams_def demoSchedule1_def demoPool1_def eval_pool)

lemma demo_render8: "render 8 demoParams demoSchedule8 = Rendered demoPool8"
  by (simp add: demoParams_def demoSchedule8_def demoPool8_def eval_pool upt_rec)

lemma zeroIter_pixel: "pixelColour zeroIterParams 0 0 = Some black"
proof -
  have "iters zeroIterParams \<le> 0" by (simp add: zeroIterParams_def)
  then have "pixelColour zeroIterParams 0 0 = Interpolate (Colors (cmap zeroIterParams)) 0"
    by (rule pixelColour_no_budget)
  also have "\<dots> = Some black"
    by (simp add: zeroIterParams_def demoParams_def Interpolate_low stop_def)
  finally show ?thesis .
qed

lemma zeroIter_render: "render 1 zeroIterParams zeroIterSchedule = Rendered zeroIterPool"
proof -
  have w: "width zeroIterParams = 1" and h: "height zeroIterParams = 1"
    by (simp_all add: zeroIterParams_def demoParams_def)
  show ?thesis
    by (simp add: zeroIterSchedule_def zeroIterPool_def eval_pool w h zeroIter_pixel)
qed

lemma zeroIter_no_worker:
  "render 0 zeroIterParams zeroIterSchedule
     = Rendered \<lparr>nextRow = 1, closed = True, rows = [0], workers = [],
                 img = NewRGBA 1 1, written = []\<rparr>"
proof -
  have w: "width zeroIterParams = 1" and h: "height zeroIterParams = 1"
    by (simp_all add: zeroIterParams_def demoParams_def)
  show ?thesis
    by (simp add: zeroIterSchedule_def eval_pool w h)
qed

subsection \<open>The claims on the render\<close>

text \<open>
  C4. For fixed render parameters, the render with one worker and the render with
  eight workers produce the same colour at every pixel of the output buffer: whatever
  the schedules of the goroutines, both runs end with the image \<open>renderRows p\<close> of
  the render without concurrency, a function of the parameters alone. Both renders do run to completion under some
  schedule (for a negative \<open>height\<close> both panic in \<open>make(chan int, height)\<close>).
\<close>

theorem render_independent_of_workers:
  "(0 \<le> height p \<longrightarrow>
      (\<exists>sched s. render 1 p sched = Rendered s) \<and> (\<exists>sched s. render 8 p sched = Rendered s))
   \<and> (\<forall>sched1 sched8 s1 s8.
        render 1 p sched1 = Rendered s1 \<and> render 8 p sched8 = Rendered s8
        \<longrightarrow> img s1 = img s8 \<and> img s1 = renderRows p)"
proof (intro conjI impI allI)
  assume "0 \<le> height p"
  then show "\<exists>sched s. render 1 p sched = Rendered s" "\<exists>sched s. render 8 p sched = Rendered s"
    by (rule render_completes)+
next
  fix sched1 sched8 s1 s8
  assume r: "render 1 p sched1 = Rendered s1 \<and> render 8 p sched8 = Rendered s8"
  then have "img s1 = fullImage p" "img s8 = fullImage p"
    using render_image [of 1 p sched1 s1] render_image [of 8 p sched8 s8] by simp_all
  then show "img s1 = img s8" "img s1 = renderRows p" by (simp_all add: renderRows_fullImage)
qed

text \<open>The theorem at the two-pixel render, with the two schedules written out.\<close>

theorem render_independent_of_workers_witness:
  "0 \<le> height demoParams
   \<and> render 1 demoParams demoSchedule1 = Rendered demoPool1
   \<and> render 8 demoParams demoSchedule8 = Rendered demoPool8
   \<and> img demoPool1 = img demoPool8 \<and> img demoPool1 = renderRows demoParams"
proof -
  have h: "0 \<le> height demoParams" by (simp add: demoParams_def)
  from render_independent_of_workers [of demoParams] demo_render1 demo_render8
  have "img demoPool1 = img demoPool8 \<and> img demoPool1 = renderRows demoParams" by blast
  with h demo_render1 demo_render8 show ?thesis by blast
qed

text \<open>
  C5, as the code has it. \<open>main\<close> rejects no worker count, width, height or iteration
  count and never clamps the worker count. A negative \<open>height\<close> makes
  \<open>make(chan int, height)\<close> panic before any worker is started; every other
  configuration renders to completion under some schedule. With a worker count of 0
  or less, or a width or height of 0 or less, no state of the pool has a written
  pixel and the image stays as allocated. With an iteration count of 0 or less and
  at least one worker the completed render has computed every pixel of the grid, each
  with the colour \<open>Interpolate(cmap, 0)\<close>.
\<close>

theorem invalid_parameters:
  "(height p < 0 \<longrightarrow> render k p sched = Panicked)
   \<and> (0 \<le> height p \<longrightarrow> (\<exists>sched' s. render k p sched' = Rendered s))
   \<and> (k \<le> 0 \<or> width p \<le> 0 \<or> height p \<le> 0 \<longrightarrow>
        (\<forall>s0. startPool k p = Some s0 \<longrightarrow>
           written (fold (step p) sched s0) = []
           \<and> img (fold (step p) sched s0) = NewRGBA (width p) (height p)))
   \<and> (1 \<le> k \<and> iters p \<le> 0 \<longrightarrow>
        (\<forall>s x y. render k p sched = Rendered s \<and> 0 \<le> x \<and> x < width p \<and> 0 \<le> y \<and> y < height p
           \<longrightarrow> (x, y) \<in> set (written s) \<and> Pix (img s) (x, y) = Interpolate (Colors (cmap p)) 0))"
proof (intro conjI impI allI)
  assume "height p < 0"
  then show "render k p sched = Panicked" by (simp add: render_def startPool_def)
next
  assume "0 \<le> height p"
  then show "\<exists>sched' s. render k p sched' = Rendered s" by (rule render_completes)
next
  fix s0
  assume "k \<le> 0 \<or> width p \<le> 0 \<or> height p \<le> 0" "startPool k p = Some s0"
  from no_pixel_computed [OF this(2,1)]
  show "written (fold (step p) sched s0) = []"
    and "img (fold (step p) sched s0) = NewRGBA (width p) (height p)" by simp_all
next
  fix s x y
  assume k: "1 \<le> k \<and> iters p \<le> 0"
    and r: "render k p sched = Rendered s \<and> 0 \<le> x \<and> x < width p \<and> 0 \<le> y \<and> y < height p"
  from all_pixels_computed [of k p sched s x y] k r pixelColour_no_budget [of p x y]
  show "(x, y) \<in> set (written s)" and "Pix (img s) (x, y) = Interpolate (Colors (cmap p)) 0" by simp_all
qed

text \<open>
  The theorem at the one-pixel render with the iteration count 0: with one worker,
  with no worker, and with the height \<open>-1\<close>.
\<close>

theorem invalid_parameters_witness:
  "iters zeroIterParams \<le> 0
   \<and> render 1 zeroIterParams zeroIterSchedule = Rendered zeroIterPool
   \<and> (0, 0) \<in> set (written zeroIterPool)
   \<and> Pix (img zeroIterPool) (0, 0) = Interpolate (Colors (cmap zeroIterParams)) 0
   \<and> render 0 zeroIterParams zeroIterSchedule
       = Rendered \<lparr>nextRow = 1, closed = True, rows = [0], workers = [],
                   img = NewRGBA 1 1, written = []\<rparr>
   \<and> render 1 (zeroIterParams\<lparr>height := - 1\<rparr>) zeroIterSchedule = Panicked"
proof -
  have i: "iters zeroIterParams \<le> 0" and w: "(0::int) < width zeroIterParams"
    and h: "(0::int) < height zeroIterParams"
    by (simp_all add: zeroIterParams_def demoParams_def)
  from invalid_parameters [of zeroIterParams 1 zeroIterSchedule] i w h zeroIter_render
  have a: "(0, 0) \<in> set (written zeroIterPool)
      \<and> Pix (img zeroIterPool) (0, 0) = Interpolate (Colors (cmap zeroIterParams)) 0"
    by simp
  have "height (zeroIterParams\<lparr>height := - 1\<rparr>) < 0" by simp
  with invalid_parameters [of "zeroIterParams\<lparr>height := - 1\<rparr>" 1 zeroIterSchedule]
  have b: "render 1 (zeroIterParams\<lparr>height := - 1\<rparr>) zeroIterSchedule = Panicked" by blast
  from i a b zeroIter_render zeroIter_no_worker show ?thesis by blast
qed

text \<open>
  C5 as stated fails: with the iteration count 0 the render is not rejected; it runs
  to completion and computes the pixel \<open>(0, 0)\<close>.
\<close>

theorem no_rejection_counterexample:
  "iters zeroIterParams \<le> 0
   \<and> render 1 zeroIterParams zeroIterSchedule = Rendered zeroIterPool
   \<and> written zeroIterPool = [(0, 0)]"
  using zeroIter_render by (simp add: zeroIterParams_def zeroIterPool_def)


end
